(* ===== verification/Go_Prelude.thy ===== *)
theory Go_Prelude
  imports Main
begin

text \<open>
  Shared vocabulary of the development: the Go runtime panics that the modelled code can
  raise, the two functions of Go's \<open>strings\<close> package that the sources call
  (\<open>strings.HasPrefix\<close> and \<open>strings.Split\<close> with separator \<open>"/"\<close>), and the first-match scan over a slice that both \<open>matchChild\<close> and
  \<open>insert\<close> of \<open>src/gee/trie.go\<close> use. Go strings are byte strings; a HOL
  \<open>string\<close> is a list of 8-bit \<open>char\<close>s, so indexing and lengths agree with Go.
  The generic lemmas are declared \<open>[simp]\<close> or collected in \<open>go_eval\<close>, the
  equations used to evaluate the models on concrete inputs.
\<close>

named_theorems go_eval "equations that evaluate the Go models on concrete inputs"

section \<open>Go runtime panics\<close>

text \<open>
  A panic aborts the goroutine; no source file recovers, so a panicking operation is a value
  \<open>Inl e\<close> of the result type and its partial effects are dropped.
\<close>

datatype go_panic =
    IndexOutOfRange   \<comment> \<open>\<open>s[i]\<close> or \<open>xs[i]\<close> with \<open>i \<ge> len\<close>\<close>
  | NilMapWrite       \<comment> \<open>assignment to entry in nil map\<close>
  | NilDereference    \<comment> \<open>invalid memory address or nil pointer dereference\<close>

section \<open>strings.HasPrefix\<close>

definition HasPrefix :: "string \<Rightarrow> string \<Rightarrow> bool" where
  "HasPrefix s prefix \<longleftrightarrow> length prefix \<le> length s \<and> take (length prefix) s = prefix"

lemma HasPrefix_single: "HasPrefix s [c] \<longleftrightarrow> (s \<noteq> [] \<and> hd s = c)"
  by (cases s) (auto simp: HasPrefix_def)

lemma HasPrefix_Nil [simp]: "HasPrefix [] p \<longleftrightarrow> p = []"
  by (auto simp: HasPrefix_def)

declare HasPrefix_def [go_eval]

section \<open>strings.Split with separator "/"\<close>

text \<open>
  \<open>strings.Split(s, "/")\<close> cuts \<open>s\<close> at every \<open>'/'\<close> and returns the
  \<open>Count(s, "/") + 1\<close> pieces in order, empty pieces included (\<open>Split("", "/")\<close> is
  \<open>[""]\<close>). The loop keeps the current piece reversed in \<open>cur\<close>.
\<close>

fun split_acc :: "string \<Rightarrow> string \<Rightarrow> string list" where
  "split_acc cur [] = [rev cur]"
| "split_acc cur (x # xs) =
     (if x = CHR ''/'' then rev cur # split_acc [] xs else split_acc (x # cur) xs)"

definition go_split :: "string \<Rightarrow> string list" where
  "go_split s = split_acc [] s"

declare go_split_def [go_eval] Let_def [go_eval]

lemma split_acc_nonempty [simp]: "split_acc cur s \<noteq> []"
  by (induction cur s rule: split_acc.induct) auto

section \<open>First match in a slice\<close>

text \<open>
  The loop \<open>for _, child := range n.children { if ok(child) { return child } }\<close>
  returns the first element satisfying the test; \<open>first_index\<close> returns its position
  (counting from \<open>i\<close>), so that the caller can also update the slice in place there.
\<close>

fun first_index :: "('a \<Rightarrow> bool) \<Rightarrow> 'a list \<Rightarrow> nat \<Rightarrow> nat option" where
  "first_index P [] i = None"
| "first_index P (x # xs) i = (if P x then Some i else first_index P xs (Suc i))"

lemma first_index_None [simp]: "first_index P xs i = None \<longleftrightarrow> (\<forall>x \<in> set xs. \<not> P x)"
  by (induction xs arbitrary: i) auto

lemma first_index_Some:
  "first_index P xs i = Some k \<Longrightarrow>
     i \<le> k \<and> k - i < length xs \<and> P (xs ! (k - i)) \<and> (\<forall>j < k - i. \<not> P (xs ! j))"
proof (induction xs arbitrary: i)
  case Nil
  then show ?case by simp
next
  case (Cons x xs)
  show ?case
  proof (cases "P x")
    case True
    with Cons.prems show ?thesis by simp
  next
    case False
    with Cons.prems have "first_index P xs (Suc i) = Some k" by simp
    from Cons.IH [OF this] have ih: "Suc i \<le> k" "k - Suc i < length xs"
      "P (xs ! (k - Suc i))" "\<forall>j < k - Suc i. \<not> P (xs ! j)" by auto
    then have k: "k - i = Suc (k - Suc i)" by arith
    have "\<forall>j < k - i. \<not> P ((x # xs) ! j)"
      using False ih(4) by (auto simp: k nth_Cons' less_Suc_eq_0_disj)
    with ih k show ?thesis by simp
  qed
qed

lemma first_index_Some0:
  "first_index P xs 0 = Some k \<Longrightarrow> k < length xs \<and> P (xs ! k) \<and> (\<forall>j < k. \<not> P (xs ! j))"
  using first_index_Some [of P xs 0 k] by simp

lemma first_index_eqI:
  "k < length xs \<Longrightarrow> P (xs ! k) \<Longrightarrow> \<forall>j < k. \<not> P (xs ! j) \<Longrightarrow> first_index P xs i = Some (i + k)"
proof (induction xs arbitrary: i k)
  case Nil
  then show ?case by simp
next
  case (Cons x xs)
  show ?case
  proof (cases k)
    case 0
    with Cons.prems show ?thesis by simp
  next
    case (Suc k')
    with Cons.prems have "\<not> P x" by auto
    moreover from Cons.prems Suc have "first_index P xs (Suc i) = Some (Suc i + k')"
      by (intro Cons.IH) auto
    ultimately show ?thesis using Suc by simp
  qed
qed

lemma first_index_update_same:
  assumes "first_index P xs 0 = Some k" and "P y"
  shows "first_index P (xs[k := y]) 0 = Some k"
proof -
  from first_index_Some0 [OF assms(1)] have k: "k < length xs" "\<forall>j < k. \<not> P (xs ! j)" by auto
  then show ?thesis using assms(2)
    by (intro first_index_eqI [where k = k and i = 0, simplified]) auto
qed

lemma first_index_snoc_new:
  assumes "first_index P xs 0 = None" and "P y"
  shows "first_index P (xs @ [y]) 0 = Some (length xs)"
  using assms by (intro first_index_eqI [where k = "length xs" and i = 0, simplified])
    (auto simp: nth_append)

section \<open>First element of a list\<close>

text \<open>
  A loop that returns the first non-nil result of its iterations, or nil, is the first
  element of the list of all results.
\<close>

definition first_of :: "'a list \<Rightarrow> 'a option" where
  "first_of xs = (case xs of [] \<Rightarrow> None | x # _ \<Rightarrow> Some x)"

lemma first_of_simps [simp]: "first_of [] = None" "first_of (x # xs) = Some x"
  by (simp_all add: first_of_def)

lemma first_of_append:
  "first_of (xs @ ys) = (case first_of xs of None \<Rightarrow> first_of ys | Some x \<Rightarrow> Some x)"
  by (cases xs) simp_all

lemma first_of_in: "first_of xs = Some x \<Longrightarrow> x \<in> set xs"
  by (cases xs) simp_all

lemma first_of_None [simp]: "first_of xs = None \<longleftrightarrow> xs = []"
  by (cases xs) simp_all

end
