(* ===== verification/Trie_Node.thy ===== *)
theory Trie_Node
  imports Go_Prelude
begin

text \<open>
  The trie node of \<open>src/gee/trie.go\<close> and its registration operation: the struct
  \<open>node\<close> (lines 5--10), \<open>matchChild\<close> (12--19), \<open>matchChildren\<close> (21--29) and
  \<open>insert\<close> (31--50, here \<open>insert_node\<close>). Nodes are owned by exactly one parent slice and never shared, so
  the pointer structure is a tree and is modelled by value: mutating the child that
  \<open>matchChild\<close> returned is a list update at that child's position.
\<close>

section \<open>Data\<close>

datatype node = Node (pattern: string) (part: string) (children: "node list") (isWild: bool)

text \<open>The test of both scans: the child's segment is the requested one, or the child is wild.\<close>

definition child_matches :: "string \<Rightarrow> node \<Rightarrow> bool" where
  "child_matches p child \<longleftrightarrow> part child = p \<or> isWild child"

section \<open>matchChild and matchChildren\<close>

definition matchChild_idx :: "node \<Rightarrow> string \<Rightarrow> nat option" where
  "matchChild_idx n p = first_index (child_matches p) (children n) 0"

definition matchChild :: "node \<Rightarrow> string \<Rightarrow> node option" where
  "matchChild n p = map_option (\<lambda>i. children n ! i) (matchChild_idx n p)"

definition matchChildren :: "node \<Rightarrow> string \<Rightarrow> node list" where
  "matchChildren n p = filter (child_matches p) (children n)"

section \<open>insert\<close>

text \<open>
  \<open>&node{part: part, isWild: part[0] == ':' || part[0] == '*'}\<close>: indexing the empty
  string panics.
\<close>

definition new_node :: "string \<Rightarrow> go_panic + node" where
  "new_node p = (case p of
      [] \<Rightarrow> Inl IndexOutOfRange
    | c # _ \<Rightarrow> Inr (Node [] p [] (c = CHR '':'' \<or> c = CHR ''*'')))"

text \<open>
  \<open>n.insert(pattern, parts, height)\<close>. The recursive call passes \<open>part\<close> where the
  parameter is \<open>pattern\<close> (line 49), so every level below the root receives the
  segment, not the route pattern. A new child is appended to the slice before the
  recursive call; the call cannot fail after the append without the whole insertion
  panicking, so the model appends the finished child.
\<close>

function insert_node :: "node \<Rightarrow> string \<Rightarrow> string list \<Rightarrow> nat \<Rightarrow> go_panic + node" where
  "insert_node n pat parts height =
    (if length parts = height then Inr (Node pat (part n) (children n) (isWild n))
     else if length parts < height then Inl IndexOutOfRange
     else (let p = parts ! height in
       case matchChild_idx n p of
         Some i \<Rightarrow>
           (case insert_node (children n ! i) p parts (Suc height) of
              Inl e \<Rightarrow> Inl e
            | Inr c \<Rightarrow> Inr (Node (pattern n) (part n) ((children n)[i := c]) (isWild n)))
       | None \<Rightarrow>
           (case new_node p of
              Inl e \<Rightarrow> Inl e
            | Inr child \<Rightarrow>
              (case insert_node child p parts (Suc height) of
                 Inl e \<Rightarrow> Inl e
               | Inr c \<Rightarrow> Inr (Node (pattern n) (part n) (children n @ [c]) (isWild n))))))"
  by pat_completeness auto
termination
  by (relation "measure (\<lambda>(n, pat, parts, height). length parts - height)") auto

declare insert_node.simps [simp del]

section \<open>Invariant, growth and the insertion path\<close>

text \<open>
  \<open>wf_node\<close>: every node below the root has a non-empty segment and its
  \<open>isWild\<close> flag is the one line 45 derives from the segment's first byte.
  \<open>grows_by Q n n'\<close>: \<open>n'\<close> is \<open>n\<close> with the same segments and flags, possibly
  more children appended, and every old child grown in place; each node's old and new
  pattern are related by \<open>Q\<close>. \<open>grows\<close> lets patterns change freely.
  \<open>descend\<close> follows \<open>matchChild\<close> from level to level, the path \<open>insert\<close>
  takes.
\<close>

fun wf_node :: "node \<Rightarrow> bool" where
  "wf_node (Node pat p cs w) \<longleftrightarrow>
     p \<noteq> [] \<and> w = (hd p = CHR '':'' \<or> hd p = CHR ''*'') \<and> (\<forall>c \<in> set cs. wf_node c)"

definition wf_trie :: "node \<Rightarrow> bool" where
  "wf_trie n \<longleftrightarrow> (\<forall>c \<in> set (children n). wf_node c)"

fun grows_by :: "(string \<Rightarrow> string \<Rightarrow> bool) \<Rightarrow> node \<Rightarrow> node \<Rightarrow> bool" where
  "grows_by Q (Node pa p cs w) (Node pa' p' cs' w') \<longleftrightarrow>
     Q pa pa' \<and> p' = p \<and> w' = w \<and> length cs \<le> length cs' \<and>
     list_all2 (grows_by Q) cs (take (length cs) cs')"

abbreviation grows :: "node \<Rightarrow> node \<Rightarrow> bool" where
  "grows \<equiv> grows_by (\<lambda>_ _. True)"

function descend :: "node \<Rightarrow> string list \<Rightarrow> nat \<Rightarrow> node option" where
  "descend n parts height =
    (if length parts \<le> height then Some n
     else case matchChild n (parts ! height) of
            None \<Rightarrow> None
          | Some c \<Rightarrow> descend c parts (Suc height))"
  by pat_completeness auto
termination
  by (relation "measure (\<lambda>(n, parts, height). length parts - height)") auto

declare descend.simps [simp del]

section \<open>Characteristic cases\<close>

text \<open>
  The equation of \<open>insert_node\<close> is unfolded only through these lemmas, one per branch
  of the Go code: the end of \<open>parts\<close> (lines 33--37), an index past the end
  (\<open>parts[height]\<close> panics, line 40), a matching child (42, 49) and a new child
  (44--49).
\<close>

lemma insert_at_end [simp]:
  "insert_node n pat parts (length parts) = Inr (Node pat (part n) (children n) (isWild n))"
  by (simp add: insert_node.simps)

lemma insert_beyond: "length parts < h \<Longrightarrow> insert_node n pat parts h = Inl IndexOutOfRange"
  by (simp add: insert_node.simps)

lemma insert_found:
  "h < length parts \<Longrightarrow> matchChild_idx n (parts ! h) = Some i \<Longrightarrow>
   insert_node n pat parts h =
     (case insert_node (children n ! i) (parts ! h) parts (Suc h) of
        Inl e \<Rightarrow> Inl e
      | Inr c \<Rightarrow> Inr (Node (pattern n) (part n) ((children n)[i := c]) (isWild n)))"
  by (simp add: insert_node.simps [of n pat parts h] Let_def)

lemma insert_new:
  "h < length parts \<Longrightarrow> matchChild_idx n (parts ! h) = None \<Longrightarrow>
   insert_node n pat parts h =
     (case new_node (parts ! h) of
        Inl e \<Rightarrow> Inl e
      | Inr child \<Rightarrow>
          (case insert_node child (parts ! h) parts (Suc h) of
             Inl e \<Rightarrow> Inl e
           | Inr c \<Rightarrow> Inr (Node (pattern n) (part n) (children n @ [c]) (isWild n))))"
  by (simp add: insert_node.simps [of n pat parts h] Let_def)

lemma insert_InrE:
  assumes "insert_node n pat parts h = Inr n'"
  obtains (at_end) "h = length parts" "n' = Node pat (part n) (children n) (isWild n)"
  | (found) i c where "h < length parts" "matchChild_idx n (parts ! h) = Some i"
      "insert_node (children n ! i) (parts ! h) parts (Suc h) = Inr c"
      "n' = Node (pattern n) (part n) ((children n)[i := c]) (isWild n)"
  | (new) child c where "h < length parts" "matchChild_idx n (parts ! h) = None"
      "new_node (parts ! h) = Inr child" "insert_node child (parts ! h) parts (Suc h) = Inr c"
      "n' = Node (pattern n) (part n) (children n @ [c]) (isWild n)"
proof -
  consider "h = length parts" | "length parts < h" | "h < length parts" by arith
  then show thesis
  proof cases
    case 1
    with assms that(1) show thesis by simp
  next
    case 2
    with assms show thesis by (simp add: insert_beyond)
  next
    case 3
    show thesis
    proof (cases "matchChild_idx n (parts ! h)")
      case None
      with assms 3 that(3) show thesis by (auto simp: insert_new split: sum.splits)
    next
      case (Some i)
      with assms 3 that(2) show thesis by (auto simp: insert_found split: sum.splits)
    qed
  qed
qed

lemma new_node_Inr:
  "new_node p = Inr c \<longleftrightarrow>
     p \<noteq> [] \<and> c = Node [] p [] (hd p = CHR '':'' \<or> hd p = CHR ''*'')"
  by (cases p) (auto simp: new_node_def)

lemma new_node_Inl: "new_node p = Inl e \<longleftrightarrow> p = [] \<and> e = IndexOutOfRange"
  by (cases p) (auto simp: new_node_def)

lemma matchChild_idx_SomeD:
  "matchChild_idx n p = Some i \<Longrightarrow>
     i < length (children n) \<and> child_matches p (children n ! i) \<and>
     (\<forall>j < i. \<not> child_matches p (children n ! j))"
  unfolding matchChild_idx_def by (rule first_index_Some0)

lemma matchChild_idx_None:
  "matchChild_idx n p = None \<longleftrightarrow> (\<forall>c \<in> set (children n). \<not> child_matches p c)"
  by (simp add: matchChild_idx_def)

declare new_node_def [go_eval] matchChild_idx_def [go_eval] matchChild_def [go_eval]
  matchChildren_def [go_eval] child_matches_def [go_eval]

section \<open>What insert_node keeps\<close>

lemma insert_keeps_part:
  "insert_node n pat parts h = Inr n' \<Longrightarrow> part n' = part n \<and> isWild n' = isWild n"
  by (erule insert_InrE) simp_all

lemma insert_keeps_match:
  "insert_node n pat parts h = Inr n' \<Longrightarrow> child_matches p n' = child_matches p n"
  by (simp add: child_matches_def insert_keeps_part)

section \<open>Properties of insert\<close>

lemma parts_nth_in_drop: "h < length parts \<Longrightarrow> parts ! h \<in> set (drop h parts)"
  by (simp add: Cons_nth_drop_Suc [symmetric])

lemma set_drop_Suc_sub: "set (drop (Suc h) parts) \<subseteq> set (drop h parts)"
  by (simp add: set_drop_subset_set_drop)

lemma insert_node_panic:
  "insert_node n pat parts h = Inl e \<Longrightarrow>
     e = IndexOutOfRange \<and> (length parts < h \<or> [] \<in> set (drop h parts))"
proof (induction n pat parts h rule: insert_node.induct)
  case (1 n pat parts h)
  consider "h = length parts" | "length parts < h" | "h < length parts" by arith
  then show ?case
  proof cases
    case 1
    with "1.prems" show ?thesis by simp
  next
    case 2
    with "1.prems" show ?thesis by (simp add: insert_beyond)
  next
    case 3
    note h = 3 parts_nth_in_drop [OF 3] set_drop_Suc_sub [of h parts]
    show ?thesis
    proof (cases "matchChild_idx n (parts ! h)")
      case None
      show ?thesis
      proof (cases "new_node (parts ! h)")
        case (Inl e')
        with "1.prems" h None show ?thesis by (auto simp: insert_new new_node_Inl)
      next
        case (Inr child)
        with "1.prems" h None have "insert_node child (parts ! h) parts (Suc h) = Inl e"
          by (auto simp: insert_new split: sum.splits)
        from "1.IH"(1) [OF _ _ refl None Inr this] h show ?thesis by auto
      qed
    next
      case (Some i)
      with "1.prems" h have "insert_node (children n ! i) (parts ! h) parts (Suc h) = Inl e"
        by (auto simp: insert_found split: sum.splits)
      from "1.IH"(2) [OF _ _ refl Some this] h show ?thesis by auto
    qed
  qed
qed

lemma insert_node_total:
  "h \<le> length parts \<Longrightarrow> [] \<notin> set (drop h parts) \<Longrightarrow> \<exists>n'. insert_node n pat parts h = Inr n'"
  by (cases "insert_node n pat parts h") (auto dest: insert_node_panic)

lemma wf_node_sel:
  "wf_node n \<longleftrightarrow> part n \<noteq> [] \<and> isWild n = (hd (part n) = CHR '':'' \<or> hd (part n) = CHR ''*'') \<and>
     wf_trie n"
  by (cases n) (simp add: wf_trie_def)

lemma new_node_wf: "new_node p = Inr c \<Longrightarrow> wf_node c"
  by (auto simp: new_node_Inr)

lemma reselect_found:
  "matchChild_idx n p = Some i \<Longrightarrow> child_matches p c \<Longrightarrow>
     matchChild_idx (Node pa pt ((children n)[i := c]) w) p = Some i"
  by (simp add: matchChild_idx_def first_index_update_same)

lemma reselect_new:
  "matchChild_idx n p = None \<Longrightarrow> child_matches p c \<Longrightarrow>
     matchChild_idx (Node pa pt (children n @ [c]) w) p = Some (length (children n))"
  by (simp add: matchChild_idx_def first_index_snoc_new)

lemma new_node_matches: "new_node p = Inr c \<Longrightarrow> child_matches p c"
  by (auto simp: new_node_Inr child_matches_def)

lemma insert_node_wf: "insert_node n pat parts h = Inr n' \<Longrightarrow> wf_trie n \<Longrightarrow> wf_trie n'"
proof (induction n pat parts h arbitrary: n' rule: insert_node.induct)
  case (1 n pat parts h)
  from "1.prems"(1) show ?case
  proof (cases rule: insert_InrE)
    case at_end
    with "1.prems"(2) show ?thesis by (simp add: wf_trie_def)
  next
    case (found i c)
    from found(2) have i: "i < length (children n)" by (auto dest: matchChild_idx_SomeD)
    with "1.prems"(2) have "wf_node (children n ! i)" by (simp add: wf_trie_def)
    with "1.IH"(2) [OF _ _ refl found(2,3)] found(1) insert_keeps_part [OF found(3)]
    have "wf_node c" by (auto simp: wf_node_sel)
    with "1.prems"(2) found(4) show ?thesis
      by (auto simp: wf_trie_def dest: set_update_subset_insert [THEN subsetD])
  next
    case (new child c)
    from new_node_wf [OF new(3)] have "wf_node child" .
    with "1.IH"(1) [OF _ _ refl new(2,3,4)] new(1) insert_keeps_part [OF new(4)]
    have "wf_node c" by (auto simp: wf_node_sel)
    with "1.prems"(2) new(5) show ?thesis by (simp add: wf_trie_def)
  qed
qed

section \<open>Claims about insert\<close>

text \<open>
  C5. Idempotence (spec 8, second item): inserting the same segments again into the trie a
  successful insertion produced succeeds and changes nothing, not even the order of
  children, because \<open>matchChild\<close> selects the same child at every level.
\<close>

theorem insert_node_idem:
  "insert_node n pat parts h = Inr n1 \<Longrightarrow> insert_node n1 pat parts h = Inr n1"
proof (induction n pat parts h arbitrary: n1 rule: insert_node.induct)
  case (1 n pat parts h)
  from "1.prems" show ?case
  proof (cases rule: insert_InrE)
    case at_end
    then show ?thesis by simp
  next
    case (found i c)
    from found(2) have i: "i < length (children n)" by (auto dest: matchChild_idx_SomeD)
    have m: "child_matches (parts ! h) c"
      using insert_keeps_match [OF found(3)] matchChild_idx_SomeD [OF found(2)] by simp
    have sel: "matchChild_idx n1 (parts ! h) = Some i"
      using reselect_found [OF found(2) m] found(4) by simp
    have "insert_node c (parts ! h) parts (Suc h) = Inr c"
      by (rule "1.IH"(2) [OF _ _ refl found(2,3)]) (use found(1) in auto)
    with found(1,4) sel i show ?thesis by (simp add: insert_found)
  next
    case (new child c)
    have m: "child_matches (parts ! h) c"
      using insert_keeps_match [OF new(4)] new_node_matches [OF new(3)] by simp
    have sel: "matchChild_idx n1 (parts ! h) = Some (length (children n))"
      using reselect_new [OF new(2) m] new(5) by simp
    have "insert_node c (parts ! h) parts (Suc h) = Inr c"
      by (rule "1.IH"(1) [OF _ _ refl new(2,3,4)]) (use new(1) in auto)
    with new(1,5) sel show ?thesis by (simp add: insert_found)
  qed
qed

lemma grows_by_refl: "(\<And>x. Q x x) \<Longrightarrow> grows_by Q n n"
proof (induction n)
  case (Node pa p cs w)
  then show ?case by (auto intro: list.rel_refl_strong)
qed

lemma grows_by_trans:
  assumes Q: "\<And>x y z. Q x y \<Longrightarrow> Q y z \<Longrightarrow> Q x z"
  shows "grows_by Q n1 n2 \<Longrightarrow> grows_by Q n2 n3 \<Longrightarrow> grows_by Q n1 n3"
proof (induction n1 arbitrary: n2 n3)
  case (Node pa p cs w)
  obtain pa2 p2 cs2 w2 where n2: "n2 = Node pa2 p2 cs2 w2" by (cases n2)
  obtain pa3 p3 cs3 w3 where n3: "n3 = Node pa3 p3 cs3 w3" by (cases n3)
  from Node.prems n2 n3 have l: "length cs \<le> length cs2" "length cs2 \<le> length cs3"
    and r1: "list_all2 (grows_by Q) cs (take (length cs) cs2)"
    and r2: "list_all2 (grows_by Q) cs2 (take (length cs2) cs3)" by auto
  from list_all2_takeI [OF r2, of "length cs"] l
  have r2': "list_all2 (grows_by Q) (take (length cs) cs2) (take (length cs) cs3)"
    by (simp add: min_def)
  have "list_all2 (grows_by Q) cs (take (length cs) cs3)"
    unfolding list_all2_conv_all_nth
  proof (intro conjI allI impI)
    show "length cs = length (take (length cs) cs3)"
      using l by simp
    fix i assume i: "i < length cs"
    from i r1 r2' have "grows_by Q (cs ! i) (take (length cs) cs2 ! i)"
      and "grows_by Q (take (length cs) cs2 ! i) (take (length cs) cs3 ! i)"
      by (auto simp: list_all2_conv_all_nth)
    then show "grows_by Q (cs ! i) (take (length cs) cs3 ! i)"
      using Node.IH [OF nth_mem [OF i]] by blast
  qed
  with Node.prems n2 n3 l Q show ?case by auto
qed

lemma grows_by_sel:
  "grows_by Q n n' \<longleftrightarrow> Q (pattern n) (pattern n') \<and> part n' = part n \<and> isWild n' = isWild n \<and>
     length (children n) \<le> length (children n') \<and>
     list_all2 (grows_by Q) (children n) (take (length (children n)) (children n'))"
  by (cases n, cases n') simp

text \<open>
  An insertion grows the trie in place; the only pattern it writes is the argument at the
  end of the path, which is \<open>pat\<close> or one of the remaining segments.
\<close>

lemma insert_node_grows_by:
  "insert_node n pat parts h = Inr n' \<Longrightarrow> (\<And>x. Q x x) \<Longrightarrow>
     (\<And>x. Q x pat) \<Longrightarrow> (\<And>x q. q \<in> set (drop h parts) \<Longrightarrow> Q x q) \<Longrightarrow> grows_by Q n n'"
proof (induction n pat parts h arbitrary: n' rule: insert_node.induct)
  case (1 n pat parts h)
  have rfl: "list_all2 (grows_by Q) (children n) (children n)"
    using "1.prems"(2) by (auto intro: list.rel_refl_strong grows_by_refl)
  have seg: "Q x q" if "q \<in> set (drop (Suc h) parts)" for x q
  proof -
    from that set_drop_Suc_sub [of h parts] have "q \<in> set (drop h parts)" by blast
    then show "Q x q" by (rule "1.prems"(4))
  qed
  from "1.prems"(1) show ?case
  proof (cases rule: insert_InrE)
    case at_end
    with rfl "1.prems"(3) show ?thesis by (simp add: grows_by_sel)
  next
    case (found i c)
    have p: "\<And>x. Q x (parts ! h)" using "1.prems"(4) parts_nth_in_drop [OF found(1)] .
    have "grows_by Q (children n ! i) c"
      by (rule "1.IH"(2) [OF _ _ refl found(2,3) "1.prems"(2) p seg]) (use found(1) in auto)
    from list_all2_update_cong [OF rfl this, of i]
    have "list_all2 (grows_by Q) (children n) ((children n)[i := c])" by simp
    with found(4) "1.prems"(2) show ?thesis by (simp add: grows_by_sel)
  next
    case (new child c)
    with rfl "1.prems"(2) show ?thesis by (simp add: grows_by_sel)
  qed
qed

lemma grows_by_child:
  "grows_by Q n n' \<Longrightarrow> c \<in> set (children n) \<Longrightarrow> \<exists>c' \<in> set (children n'). grows_by Q c c'"
proof -
  assume g: "grows_by Q n n'" and c: "c \<in> set (children n)"
  then obtain i where i: "i < length (children n)" "c = children n ! i" by (auto simp: in_set_conv_nth)
  from g have l: "length (children n) \<le> length (children n')"
    and r: "list_all2 (grows_by Q) (children n) (take (length (children n)) (children n'))"
    by (simp_all add: grows_by_sel)
  from r i have "grows_by Q c (children n' ! i)" by (auto simp: list_all2_conv_all_nth)
  moreover from i l have "children n' ! i \<in> set (children n')" by simp
  ultimately show ?thesis by blast
qed

lemma grows_by_matches: "grows_by Q c c' \<Longrightarrow> child_matches p c' = child_matches p c"
  by (simp add: grows_by_sel child_matches_def)

lemma nth_last: "Suc h = length xs \<Longrightarrow> xs ! h = last xs"
  by (metis diff_Suc_1 last_conv_nth list.size(3) nat.distinct(1))

lemma insert_node_stores:
  "insert_node n pat parts h = Inr n' \<Longrightarrow>
     \<exists>t. descend n' parts h = Some t \<and> pattern t = (if h = length parts then pat else last parts)"
proof (induction n pat parts h arbitrary: n' rule: insert_node.induct)
  case (1 n pat parts h)
  from "1.prems" show ?case
  proof (cases rule: insert_InrE)
    case at_end
    then show ?thesis by (simp add: descend.simps)
  next
    case (found i c)
    from found(2) have i: "i < length (children n)" by (auto dest: matchChild_idx_SomeD)
    have m: "child_matches (parts ! h) c"
      using insert_keeps_match [OF found(3)] matchChild_idx_SomeD [OF found(2)] by simp
    have sel: "matchChild n' (parts ! h) = Some c"
      using reselect_found [OF found(2) m] found(4) i by (simp add: matchChild_def)
    obtain t where t: "descend c parts (Suc h) = Some t"
      "pattern t = (if Suc h = length parts then parts ! h else last parts)"
      using "1.IH"(2) [OF _ _ refl found(2,3)] found(1) by auto
    with found(1) sel show ?thesis
      by (auto simp: descend.simps [of n'] nth_last)
  next
    case (new child c)
    have m: "child_matches (parts ! h) c"
      using insert_keeps_match [OF new(4)] new_node_matches [OF new(3)] by simp
    have sel: "matchChild n' (parts ! h) = Some c"
      using reselect_new [OF new(2) m] new(5) by (simp add: matchChild_def)
    obtain t where t: "descend c parts (Suc h) = Some t"
      "pattern t = (if Suc h = length parts then parts ! h else last parts)"
      using "1.IH"(1) [OF _ _ refl new(2,3,4)] new(1) by auto
    with new(1) sel show ?thesis
      by (auto simp: descend.simps [of n'] nth_last)
  qed
qed

theorem insert_node_idem_witness:
  "insert_node (Node [] [] [] False) ''/p/:id'' [''p'', '':id''] 0 =
     Inr (Node [] [] [Node [] ''p'' [Node '':id'' '':id'' [] True] False] False) \<and>
   insert_node (Node [] [] [Node [] ''p'' [Node '':id'' '':id'' [] True] False] False)
     ''/p/:id'' [''p'', '':id''] 0 =
     Inr (Node [] [] [Node [] ''p'' [Node '':id'' '':id'' [] True] False] False)"
proof -
  have e: "insert_node (Node [] [] [] False) ''/p/:id'' [''p'', '':id''] 0 =
     Inr (Node [] [] [Node [] ''p'' [Node '':id'' '':id'' [] True] False] False)"
    by (simp add: insert_node.simps go_eval)
  from e insert_node_idem [OF e] show ?thesis by simp
qed

text \<open>
  C6. Panics of \<open>insert\<close>: started at a level within the path, an insertion either
  succeeds or panics with an index out of range, and it can panic only if one of the
  remaining segments is empty (\<open>part[0]\<close> at line 45).
\<close>

theorem insert_node_error_cases:
  "h \<le> length parts \<Longrightarrow>
     (\<exists>n'. insert_node n pat parts h = Inr n') \<or>
     (insert_node n pat parts h = Inl IndexOutOfRange \<and> [] \<in> set (drop h parts))"
  by (cases "insert_node n pat parts h") (auto dest: insert_node_panic)

theorem insert_node_error_cases_witness:
  "insert_node (Node [] [] [] False) ''/'' [[]] 0 = Inl IndexOutOfRange \<and> [] \<in> set (drop 0 [[]::string])"
proof -
  have "(0::nat) \<le> length [[]::string]" by simp
  from insert_node_error_cases [OF this, of "Node [] [] [] False" "''/''"]
  show ?thesis by (simp add: insert_node.simps go_eval)
qed

text \<open>
  C3. What a successful insertion stores: the node at the end of the path \<open>insert\<close>
  follows carries the pattern argument only when the path is empty; otherwise it carries the
  last segment, because line 49 passes \<open>part\<close> for \<open>pattern\<close>.
\<close>

theorem insert_node_stores_last_segment:
  "insert_node n pat parts h = Inr n' \<Longrightarrow> h < length parts \<Longrightarrow>
     \<exists>t. descend n' parts h = Some t \<and> pattern t = last parts"
  using insert_node_stores by fastforce

theorem insert_node_stores_last_segment_witness:
  "descend (Node [] [] [Node [] ''p'' [Node '':id'' '':id'' [] True] False] False) [''p'', '':id''] 0 =
     Some (Node '':id'' '':id'' [] True) \<and> pattern (Node '':id'' '':id'' [] True) = last [''p'', '':id'']"
proof -
  have e: "insert_node (Node [] [] [] False) ''/p/:id'' [''p'', '':id''] 0 =
     Inr (Node [] [] [Node [] ''p'' [Node '':id'' '':id'' [] True] False] False)"
    by (simp add: insert_node.simps go_eval)
  have d: "descend (Node [] [] [Node [] ''p'' [Node '':id'' '':id'' [] True] False] False)
      [''p'', '':id''] 0 = Some (Node '':id'' '':id'' [] True)"
    by (simp add: descend.simps go_eval)
  from insert_node_stores_last_segment [OF e] d show ?thesis by simp
qed

end
