(* ===== verification/Trie_Search.thy ===== *)
theory Trie_Search
  imports Trie_Node
begin

text \<open>
  Route resolution of \<open>src/gee/trie.go\<close>: \<open>search\<close> (lines 52--70), a depth-first
  search with backtracking over every child that \<open>matchChildren\<close> returns. The loop of
  lines 63--68 is \<open>search_children\<close>. Its abstract specification is the relation
  \<open>reach n parts h r\<close>: the segments \<open>parts\<close> from level \<open>h\<close> lead from \<open>n\<close>
  to the registered node \<open>r\<close>. \<open>all_matches\<close> lists every such \<open>r\<close> in
  depth-first order, the children of a node taken in slice order, left to right; it is
  written over \<open>children\<close> directly, independently of \<open>matchChildren\<close>, and is the
  reference the search is compared with.
\<close>

section \<open>search\<close>

function search :: "node \<Rightarrow> string list \<Rightarrow> nat \<Rightarrow> go_panic + node option"
  and search_children :: "node list \<Rightarrow> string list \<Rightarrow> nat \<Rightarrow> go_panic + node option" where
  "search n parts height =
    (if length parts = height \<or> HasPrefix (part n) ''*'' then
       (if pattern n = [] then Inr None else Inr (Some n))
     else if length parts < height then Inl IndexOutOfRange
     else search_children (matchChildren n (parts ! height)) parts (Suc height))"
| "search_children [] parts height = Inr None"
| "search_children (child # cs) parts height =
    (case search child parts height of
       Inl e \<Rightarrow> Inl e
     | Inr (Some res) \<Rightarrow> Inr (Some res)
     | Inr None \<Rightarrow> search_children cs parts height)"
  by pat_completeness auto
termination
  by (relation "measures
       [\<lambda>x. case x of Inl (n, parts, h) \<Rightarrow> length parts - h | Inr (cs, parts, h) \<Rightarrow> length parts - h,
        \<lambda>x. case x of Inl (n, _, _) \<Rightarrow> size n | Inr (cs, _, _) \<Rightarrow> size_list size cs]") auto

declare search.simps [simp del]

section \<open>Specification and reference\<close>

text \<open>
  \<open>reach\<close>: a node ends the search when the segments are used up or its own segment is a
  catch-all (\<open>*name\<close>), and it is a match when it carries a pattern; otherwise the
  search may go down to any child that matches the next segment.
\<close>

inductive reach :: "node \<Rightarrow> string list \<Rightarrow> nat \<Rightarrow> node \<Rightarrow> bool" where
  stop: "length parts = h \<or> HasPrefix (part n) ''*'' \<Longrightarrow> pattern n \<noteq> [] \<Longrightarrow> reach n parts h n"
| down: "h < length parts \<Longrightarrow> \<not> HasPrefix (part n) ''*'' \<Longrightarrow> c \<in> set (children n) \<Longrightarrow>
    child_matches (parts ! h) c \<Longrightarrow> reach c parts (Suc h) r \<Longrightarrow> reach n parts h r"

inductive_cases reachE: "reach n parts h r"

function all_matches :: "node \<Rightarrow> string list \<Rightarrow> nat \<Rightarrow> node list" where
  "all_matches n parts h =
    (if length parts = h \<or> HasPrefix (part n) ''*'' then (if pattern n = [] then [] else [n])
     else if length parts < h then []
     else concat (map (\<lambda>c. all_matches c parts (Suc h)) (filter (child_matches (parts ! h)) (children n))))"
  by pat_completeness auto
termination
  by (relation "measure (\<lambda>(n, parts, h). length parts - h)") auto

declare all_matches.simps [simp del]

text \<open>
  The nodes of a trie in pre-order, its depth (the longest path of child links), and the
  property that no segment in it is a catch-all.
\<close>

fun nodes :: "node \<Rightarrow> node list" where
  "nodes (Node pa p cs w) = Node pa p cs w # concat (map nodes cs)"

fun depth :: "node \<Rightarrow> nat" where
  "depth (Node pa p cs w) = (if cs = [] then 0 else Suc (Max (set (map depth cs))))"

fun no_star :: "node \<Rightarrow> bool" where
  "no_star (Node pa p cs w) \<longleftrightarrow> \<not> HasPrefix p ''*'' \<and> (\<forall>c \<in> set cs. no_star c)"

section \<open>The search against the reference\<close>

lemma search_all_matches:
  "h \<le> length parts \<Longrightarrow> search n parts h = Inr (first_of (all_matches n parts h))"
  "h \<le> length parts \<Longrightarrow>
     search_children cs parts h = Inr (first_of (concat (map (\<lambda>c. all_matches c parts h) cs)))"
proof (induction n parts h and cs parts h rule: search_search_children.induct)
  case (1 n parts height)
  then show ?case
    by (auto simp: search.simps [of n parts height] all_matches.simps [of n parts height] matchChildren_def)
next
  case (2 parts height)
  then show ?case by simp
next
  case (3 child cs parts height)
  then show ?case by (auto simp: first_of_append split: option.splits)
qed

lemma all_matches_reach: "r \<in> set (all_matches n parts h) \<longleftrightarrow> reach n parts h r"
proof (induction n parts h rule: all_matches.induct)
  case (1 n parts h)
  show ?case
  proof (cases "length parts = h \<or> HasPrefix (part n) ''*''")
    case True
    then show ?thesis
      by (auto simp: all_matches.simps [of n parts h] intro: reach.stop elim: reachE)
  next
    case False
    show ?thesis
    proof (cases "length parts < h")
      case True
      with False show ?thesis by (auto simp: all_matches.simps [of n parts h] elim: reachE)
    next
      case h: False
      have "r \<in> set (all_matches n parts h) \<longleftrightarrow>
          (\<exists>c \<in> set (filter (child_matches (parts ! h)) (children n)). r \<in> set (all_matches c parts (Suc h)))"
        using False h by (auto simp: all_matches.simps [of n parts h])
      also have "\<dots> \<longleftrightarrow> (\<exists>c \<in> set (filter (child_matches (parts ! h)) (children n)). reach c parts (Suc h) r)"
        using "1.IH" False h by blast
      also have "\<dots> \<longleftrightarrow> reach n parts h r"
      proof
        assume "\<exists>c \<in> set (filter (child_matches (parts ! h)) (children n)). reach c parts (Suc h) r"
        with False h show "reach n parts h r" by (auto intro: reach.down)
      next
        assume "reach n parts h r"
        then show "\<exists>c \<in> set (filter (child_matches (parts ! h)) (children n)). reach c parts (Suc h) r"
          using False by (cases rule: reachE) (auto)
      qed
      finally show ?thesis .
    qed
  qed
qed

lemma search_result:
  "search n parts h = Inr (Some r) \<Longrightarrow> pattern r \<noteq> [] \<and> r \<in> set (nodes n)"
  "search_children cs parts h = Inr (Some r) \<Longrightarrow>
     pattern r \<noteq> [] \<and> (\<exists>c \<in> set cs. r \<in> set (nodes c))"
proof (induction n parts h and cs parts h rule: search_search_children.induct)
  case (1 n parts height)
  show ?case
  proof (cases "length parts = height \<or> HasPrefix (part n) ''*''")
    case True
    with "1.prems" show ?thesis
      by (cases n) (auto simp: search.simps [of _ parts height] split: if_splits)
  next
    case False
    with "1.prems" have h: "\<not> length parts < height"
      and r: "search_children (matchChildren n (parts ! height)) parts (Suc height) = Inr (Some r)"
      by (auto simp: search.simps [of n parts height] split: if_splits)
    from "1.IH" [OF False h r] show ?thesis
      by (cases n) (auto simp: matchChildren_def)
  qed
next
  case (2 parts height)
  then show ?case by simp
next
  case (3 child cs parts height)
  then show ?case by (auto split: sum.splits option.splits)
qed

lemma depth_child: "c \<in> set (children n) \<Longrightarrow> depth c < depth n"
  by (cases n) (auto simp: less_Suc_eq_le)

lemma no_star_child: "no_star n \<Longrightarrow> c \<in> set (children n) \<Longrightarrow> no_star c"
  by (cases n) auto

lemma no_star_part: "no_star n \<Longrightarrow> \<not> HasPrefix (part n) ''*''"
  by (cases n) auto

lemma reach_depth: "reach n parts h r \<Longrightarrow> no_star n \<Longrightarrow> length parts \<le> h + depth n"
proof (induction rule: reach.induct)
  case (stop parts h n)
  then show ?case by (auto dest: no_star_part)
next
  case (down h parts n c r)
  from down.IH no_star_child [OF down.prems down.hyps(3)] depth_child [OF down.hyps(3)]
  show ?case by simp
qed

lemma reach_search: "reach n parts h r \<Longrightarrow> h \<le> length parts \<Longrightarrow> \<exists>r'. search n parts h = Inr (Some r')"
  using search_all_matches(1) [of h parts n] all_matches_reach [of r n parts h]
  by (cases "all_matches n parts h") auto

lemma search_Some_reach: "h \<le> length parts \<Longrightarrow> search n parts h = Inr (Some r) \<Longrightarrow> reach n parts h r"
  using search_all_matches(1) [of h parts n] first_of_in [of "all_matches n parts h" r]
  by (simp add: all_matches_reach)

lemma reach_extend_star:
  "reach n qs h r \<Longrightarrow> HasPrefix (part r) ''*'' \<Longrightarrow> reach n (qs @ ext) h r"
proof (induction rule: reach.induct)
  case (stop parts h n)
  then show ?case by (intro reach.stop) simp_all
next
  case (down h parts n c r)
  then show ?case by (intro reach.down [of h _ n c]) (simp_all add: nth_append)
qed

section \<open>Correctness of search\<close>

text \<open>
  C1. From any level within the path, \<open>search\<close> never panics, and it returns a node
  exactly when the specification \<open>reach\<close> has a match; the node it returns is one.
\<close>

theorem search_correct:
  "h \<le> length parts \<Longrightarrow>
     \<exists>res. search n parts h = Inr res \<and>
       (case res of None \<Rightarrow> \<forall>r. \<not> reach n parts h r | Some r \<Rightarrow> reach n parts h r)"
proof -
  assume h: "h \<le> length parts"
  have "\<forall>r. r \<in> set (all_matches n parts h) \<longleftrightarrow> reach n parts h r"
    by (simp add: all_matches_reach)
  with search_all_matches(1) [OF h] show ?thesis
    by (cases "all_matches n parts h") (auto simp: first_of_def)
qed

theorem search_correct_witness:
  "reach (Node [] [] [Node [] ''p'' [Node '':id'' '':id'' [] True] False] False)
     [''p'', ''123''] 0 (Node '':id'' '':id'' [] True)"
proof -
  let ?t = "Node [] [] [Node [] ''p'' [Node '':id'' '':id'' [] True] False] False"
  have "search ?t [''p'', ''123''] 0 = Inr (Some (Node '':id'' '':id'' [] True))"
    by (simp add: search.simps go_eval)
  with search_correct [of 0 "[''p'', ''123'']" ?t] show ?thesis by auto
qed

text \<open>
  C2. The backtracking search is the reference enumeration cut short: it returns the first
  of all matches in depth-first order, each node's children tried in slice order from left
  to right (\<open>all_matches\<close> is written over \<open>children\<close>, not over
  \<open>matchChildren\<close>), and the reference lists exactly the matches of the specification.
\<close>

theorem search_dfs_first:
  "h \<le> length parts \<Longrightarrow>
     search n parts h = Inr (first_of (all_matches n parts h)) \<and>
     set (all_matches n parts h) = {r. reach n parts h r}"
  using search_all_matches(1) all_matches_reach by blast

theorem search_dfs_first_witness:
  "search (Node [] [] [Node [] ''p'' [Node ''new'' ''new'' [] False, Node '':id'' '':id'' [] True] False] False)
     [''p'', ''new''] 0 = Inr (Some (Node ''new'' ''new'' [] False)) \<and>
   all_matches (Node [] [] [Node [] ''p'' [Node ''new'' ''new'' [] False, Node '':id'' '':id'' [] True] False] False)
     [''p'', ''new''] 0 = [Node ''new'' ''new'' [] False, Node '':id'' '':id'' [] True]"
proof -
  let ?t = "Node [] [] [Node [] ''p'' [Node ''new'' ''new'' [] False, Node '':id'' '':id'' [] True] False] False"
  have a: "all_matches ?t [''p'', ''new''] 0 = [Node ''new'' ''new'' [] False, Node '':id'' '':id'' [] True]"
    by (simp add: all_matches.simps go_eval)
  have "(0::nat) \<le> length [''p'', ''new'']" by simp
  from search_dfs_first [OF this, of ?t] a show ?thesis by simp
qed

text \<open>
  C9. A node the search returns is a terminal node (it carries a pattern) of the trie that
  was searched; the search never fabricates or returns scaffolding nodes.
\<close>

theorem search_returns_terminal:
  "search n parts h = Inr (Some r) \<Longrightarrow> pattern r \<noteq> [] \<and> r \<in> set (nodes n)"
  by (rule search_result(1))

theorem search_returns_terminal_witness:
  "pattern (Node '':id'' '':id'' [] True) \<noteq> [] \<and>
   Node '':id'' '':id'' [] True \<in> set (nodes (Node [] [] [Node [] ''p'' [Node '':id'' '':id'' [] True] False] False))"
proof -
  have "search (Node [] [] [Node [] ''p'' [Node '':id'' '':id'' [] True] False] False) [''p'', ''7''] 0 =
      Inr (Some (Node '':id'' '':id'' [] True))"
    by (simp add: search.simps go_eval)
  from search_returns_terminal [OF this] show ?thesis .
qed

text \<open>
  C10. Without catch-all segments, a path with more segments than the trie is deep finds no
  match (spec 8, fourth item).
\<close>

theorem search_too_long:
  "no_star n \<Longrightarrow> h + depth n < length parts \<Longrightarrow> search n parts h = Inr None"
proof -
  assume ns: "no_star n" and long: "h + depth n < length parts"
  then have "\<forall>r. \<not> reach n parts h r" using reach_depth by fastforce
  then have "all_matches n parts h = []" using all_matches_reach by (metis list.set_intros(1) neq_Nil_conv)
  with long search_all_matches(1) [of h parts n] show ?thesis by simp
qed

theorem search_too_long_witness:
  "no_star (Node [] [] [Node ''a'' ''a'' [] False] False) \<and>
   0 + depth (Node [] [] [Node ''a'' ''a'' [] False] False) < length [''a'', ''b''] \<and>
   search (Node [] [] [Node ''a'' ''a'' [] False] False) [''a'', ''b''] 0 = Inr None"
proof -
  have h: "no_star (Node [] [] [Node ''a'' ''a'' [] False] False)"
    "0 + depth (Node [] [] [Node ''a'' ''a'' [] False] False) < length [''a'', ''b'']"
    by (simp_all add: go_eval)
  from h search_too_long [OF h] show ?thesis by simp
qed

text \<open>
  C22. A catch-all absorbs any number of further segments (spec 8): whenever the search
  returns a catch-all node (segment \<open>*name\<close>), that node stays a match of the path
  extended by any segments, and the extended path is served as well.
\<close>

theorem search_catch_all_absorbs:
  "h \<le> length qs \<Longrightarrow> search n qs h = Inr (Some r) \<Longrightarrow> HasPrefix (part r) ''*'' \<Longrightarrow>
     reach n (qs @ ext) h r \<and> (\<exists>r'. search n (qs @ ext) h = Inr (Some r'))"
proof -
  assume h: "h \<le> length qs" and s: "search n qs h = Inr (Some r)" and st: "HasPrefix (part r) ''*''"
  have "reach n (qs @ ext) h r" by (rule reach_extend_star [OF search_Some_reach [OF h s] st])
  moreover from h have "h \<le> length (qs @ ext)" by simp
  ultimately show ?thesis using reach_search by blast
qed

theorem search_catch_all_absorbs_witness:
  "search (Node [] [] [Node [] ''a'' [Node ''*rest'' ''*rest'' [] True] False] False) [''a'', ''b''] 0 = Inr (Some (Node ''*rest'' ''*rest'' [] True)) \<and>
   reach (Node [] [] [Node [] ''a'' [Node ''*rest'' ''*rest'' [] True] False] False) [''a'', ''b'', ''c'', ''d''] 0 (Node ''*rest'' ''*rest'' [] True) \<and>
   (\<exists>r'. search (Node [] [] [Node [] ''a'' [Node ''*rest'' ''*rest'' [] True] False] False) [''a'', ''b'', ''c'', ''d''] 0 = Inr (Some r'))"
proof -
  have s: "search (Node [] [] [Node [] ''a'' [Node ''*rest'' ''*rest'' [] True] False] False) [''a'', ''b''] 0 = Inr (Some (Node ''*rest'' ''*rest'' [] True))"
    by (simp add: search.simps go_eval)
  have "(0::nat) \<le> length [''a'', ''b'']" "HasPrefix (part (Node ''*rest'' ''*rest'' [] True)) ''*''" by (simp_all add: go_eval)
  from search_catch_all_absorbs [OF this(1) s this(2), of "[''c'', ''d'']"] s show ?thesis by simp
qed

end
