(* ===== verification/Route_Trie.thy ===== *)
theory Route_Trie
  imports Trie_Search
begin

text \<open>
  The trie as the router uses it. The router is not under \<open>src/\<close>; following
  \<open>spec.md\<close> (sections 2, 4.1, 6) it owns a root \<open>&node{}\<close>, splits a pattern or a
  path on \<open>"/"\<close> dropping the empty first piece a leading slash produces, and calls
  \<open>insert(pattern, parts, 0)\<close> and \<open>search(parts, 0)\<close>. All registrations happen
  before any search; a registration phase is a sequence of insertions (\<open>register\<close>), and
  the tries it can produce are the reachable states \<open>built\<close>.
\<close>

section \<open>Router interface (from the specification)\<close>

definition new_root :: node where
  "new_root = Node [] [] [] False"

definition parse_parts :: "string \<Rightarrow> string list" where
  "parse_parts s = (case go_split s of [] \<Rightarrow> [] | w # ws \<Rightarrow> if w = [] then ws else w # ws)"

definition trie_insert :: "node \<Rightarrow> string \<Rightarrow> go_panic + node" where
  "trie_insert t pat = insert_node t pat (parse_parts pat) 0"

definition trie_search :: "node \<Rightarrow> string \<Rightarrow> go_panic + node option" where
  "trie_search t path = search t (parse_parts path) 0"

fun register :: "node \<Rightarrow> string list \<Rightarrow> go_panic + node" where
  "register t [] = Inr t"
| "register t (pat # pats) = (case trie_insert t pat of Inl e \<Rightarrow> Inl e | Inr t' \<Rightarrow> register t' pats)"

inductive built :: "node \<Rightarrow> bool" where
  root: "built new_root"
| add: "built t \<Longrightarrow> trie_insert t pat = Inr t' \<Longrightarrow> built t'"

section \<open>Auxiliary notions\<close>

text \<open>
  A pattern the router is meant to register: non-empty, no empty segment, and a catch-all
  only as the last segment. \<open>star_ok\<close>: every catch-all node carries a pattern.
  \<open>extends n n'\<close>: \<open>n'\<close> grows \<open>n\<close> and keeps every registered node registered.
\<close>

definition good_pattern :: "string \<Rightarrow> bool" where
  "good_pattern pat \<longleftrightarrow> pat \<noteq> [] \<and> [] \<notin> set (parse_parts pat) \<and>
     (\<forall>p \<in> set (butlast (parse_parts pat)). \<not> HasPrefix p ''*'')"

definition star_node_ok :: "node \<Rightarrow> bool" where
  "star_node_ok n \<longleftrightarrow> (HasPrefix (part n) ''*'' \<longrightarrow> pattern n \<noteq> [])"

fun star_ok :: "node \<Rightarrow> bool" where
  "star_ok (Node pa p cs w) \<longleftrightarrow> star_node_ok (Node pa p cs w) \<and> (\<forall>c \<in> set cs. star_ok c)"

text \<open>
  A path \<open>qs\<close> is an instance of the segments \<open>parts\<close> when it has as many segments
  and agrees with them at every literal position; at a parameter or catch-all position it
  may carry any segment (spec 8, first item).
\<close>

definition dyn_seg :: "string \<Rightarrow> bool" where
  "dyn_seg p \<longleftrightarrow> HasPrefix p '':'' \<or> HasPrefix p ''*''"

definition instance_of :: "string list \<Rightarrow> string list \<Rightarrow> bool" where
  "instance_of parts qs \<longleftrightarrow>
     length qs = length parts \<and> (\<forall>i < length parts. qs ! i = parts ! i \<or> dyn_seg (parts ! i))"

abbreviation extends :: "node \<Rightarrow> node \<Rightarrow> bool" where
  "extends \<equiv> grows_by (\<lambda>a b. a \<noteq> [] \<longrightarrow> b \<noteq> [])"

text \<open>
  The registration phases of well-formed patterns only (see \<open>good_pattern\<close>): the
  states a router reaches when every pattern it registers is one it is meant to register.
\<close>

inductive good_built :: "node \<Rightarrow> bool" where
  root: "good_built new_root"
| add: "good_built t \<Longrightarrow> good_pattern pat \<Longrightarrow> trie_insert t pat = Inr t' \<Longrightarrow> good_built t'"

section \<open>Insertion then search\<close>

lemma reach_extends: "reach n parts h r \<Longrightarrow> extends n n' \<Longrightarrow> \<exists>r'. reach n' parts h r'"
proof (induction arbitrary: n' rule: reach.induct)
  case (stop parts h n)
  then have "reach n' parts h n'" by (intro reach.stop) (auto simp: grows_by_sel)
  then show ?case by blast
next
  case (down h parts n c r)
  from grows_by_child [OF down.prems down.hyps(3)] obtain c' where
    c': "c' \<in> set (children n')" "extends c c'" by blast
  from down.IH [OF c'(2)] obtain r' where "reach c' parts (Suc h) r'" by blast
  moreover have "child_matches (parts ! h) c'"
    using grows_by_matches [OF c'(2)] down.hyps(4) by simp
  moreover have "\<not> HasPrefix (part n') ''*''"
    using down.prems down.hyps(2) by (simp add: grows_by_sel)
  ultimately have "reach n' parts h r'" using down.hyps(1) c'(1) by (blast intro: reach.down)
  then show ?case by blast
qed

lemma nth_in_drop_butlast: "Suc h < length xs \<Longrightarrow> xs ! h \<in> set (drop h (butlast xs))"
proof -
  assume h: "Suc h < length xs"
  then have "butlast xs ! h \<in> set (drop h (butlast xs))" by (intro parts_nth_in_drop) simp
  with h show ?thesis by (simp add: nth_butlast)
qed

lemma drop_butlast_Suc: "set (drop (Suc h) xs) \<subseteq> set (drop h xs)"
  by (rule set_drop_Suc_sub)

lemma star_okI: "star_node_ok n \<Longrightarrow> \<forall>c \<in> set (children n). star_ok c \<Longrightarrow> star_ok n"
  by (cases n) simp

lemma star_okD: "star_ok n \<Longrightarrow> star_node_ok n \<and> (\<forall>c \<in> set (children n). star_ok c)"
  by (cases n) simp

lemma child_matches_instance:
  "child_matches (parts ! h) c \<Longrightarrow> wf_node c \<Longrightarrow> instance_of parts qs \<Longrightarrow> h < length parts \<Longrightarrow>
     child_matches (qs ! h) c"
  by (auto simp: instance_of_def dyn_seg_def child_matches_def wf_node_sel HasPrefix_single)

lemma instance_of_refl: "instance_of parts parts"
  by (simp add: instance_of_def)

text \<open>
  The main lemma: an insertion of a pattern with non-empty segments, a catch-all at most
  as the last one, into a well-formed trie whose catch-all nodes carry patterns, keeps that
  property and makes every instance of the inserted segments reach a registered node.
\<close>

lemma insert_node_reach:
  "insert_node n pat parts h = Inr n' \<Longrightarrow> h \<le> length parts \<Longrightarrow> pat \<noteq> [] \<Longrightarrow>
   [] \<notin> set (drop h parts) \<Longrightarrow> \<forall>p \<in> set (drop h (butlast parts)). \<not> HasPrefix p ''*'' \<Longrightarrow>
   \<forall>c \<in> set (children n). star_ok c \<Longrightarrow> (h < length parts \<Longrightarrow> star_node_ok n) \<Longrightarrow>
   wf_trie n \<Longrightarrow> instance_of parts qs \<Longrightarrow> star_ok n' \<and> (\<exists>r. reach n' qs h r)"
proof (induction n pat parts h arbitrary: n' rule: insert_node.induct)
  case (1 n pat parts h)
  note seg = "1.prems"(4) "1.prems"(5)
  have lq: "length qs = length parts" using "1.prems"(9) by (simp add: instance_of_def)
  from "1.prems"(1) show ?case
  proof (cases rule: insert_InrE)
    case at_end
    with "1.prems"(3,6) have "star_ok n'" by (intro star_okI) (simp_all add: star_node_ok_def)
    moreover from at_end "1.prems"(3) lq have "reach n' qs h n'" by (intro reach.stop) simp_all
    ultimately show ?thesis by blast
  next
    case (found i c)
    from matchChild_idx_SomeD [OF found(2)] have i: "i < length (children n)"
      and m0: "child_matches (parts ! h) (children n ! i)" by auto
    from i "1.prems"(6) have sc: "star_ok (children n ! i)" by simp
    from i "1.prems"(8) have wc: "wf_node (children n ! i)" by (simp add: wf_trie_def)
    have "star_ok c \<and> (\<exists>r. reach c qs (Suc h) r)"
    proof (rule "1.IH"(2) [OF _ _ refl found(2,3)])
      show "Suc h \<le> length parts" "parts ! h \<noteq> []" using found(1) seg(1) parts_nth_in_drop [OF found(1)] by auto
      show "[] \<notin> set (drop (Suc h) parts)" using seg(1) set_drop_Suc_sub [of h parts] by blast
      show "\<forall>p \<in> set (drop (Suc h) (butlast parts)). \<not> HasPrefix p ''*''"
        using seg(2) drop_butlast_Suc [of h "butlast parts"] by blast
      show "\<forall>c \<in> set (children (children n ! i)). star_ok c" "star_node_ok (children n ! i)"
        using star_okD [OF sc] by simp_all
      show "wf_trie (children n ! i)" using wc by (simp add: wf_node_sel)
      show "instance_of parts qs" by (rule "1.prems"(9))
    qed (use found(1) in auto)
    then obtain r where c: "star_ok c" "reach c qs (Suc h) r" by blast
    have m: "child_matches (qs ! h) c"
      using insert_keeps_match [OF found(3)] child_matches_instance [OF m0 wc "1.prems"(9) found(1)]
      by simp
    have cin: "c \<in> set (children n')" using found(4) i by (simp add: set_update_memI)
    have sn: "star_node_ok n'" using "1.prems"(7) found(1,4) by (simp add: star_node_ok_def)
    have kids: "\<forall>x \<in> set (children n'). star_ok x"
      using "1.prems"(6) c(1) found(4) by (auto dest: set_update_subset_insert [THEN subsetD])
    have "\<exists>r. reach n' qs h r"
    proof (cases "HasPrefix (part n) ''*''")
      case True
      with sn found(4) have "reach n' qs h n'" by (intro reach.stop) (simp_all add: star_node_ok_def)
      then show ?thesis by blast
    next
      case False
      with found(1,4) lq c(2) m cin have "reach n' qs h r" by (auto intro: reach.down)
      then show ?thesis by blast
    qed
    with star_okI [OF sn kids] show ?thesis by blast
  next
    case (new child c)
    from new(3) have ch: "child = Node [] (parts ! h) [] (hd (parts ! h) = CHR '':'' \<or> hd (parts ! h) = CHR ''*'')"
      "parts ! h \<noteq> []" by (simp_all add: new_node_Inr)
    have "star_ok c \<and> (\<exists>r. reach c qs (Suc h) r)"
    proof (rule "1.IH"(1) [OF _ _ refl new(2,3,4)])
      show "Suc h \<le> length parts" "parts ! h \<noteq> []" using new(1) ch(2) by auto
      show "[] \<notin> set (drop (Suc h) parts)" using seg(1) set_drop_Suc_sub [of h parts] by blast
      show "\<forall>p \<in> set (drop (Suc h) (butlast parts)). \<not> HasPrefix p ''*''"
        using seg(2) drop_butlast_Suc [of h "butlast parts"] by blast
      show "\<forall>c \<in> set (children child). star_ok c" using ch(1) by simp
      show "wf_trie child" using ch(1) by (simp add: wf_trie_def)
      show "instance_of parts qs" by (rule "1.prems"(9))
      assume "Suc h < length parts"
      then have "\<not> HasPrefix (parts ! h) ''*''" using seg(2) nth_in_drop_butlast [of h parts] by blast
      then show "star_node_ok child" using ch(1) by (simp add: star_node_ok_def)
    qed (use new(1) in auto)
    then obtain r where c: "star_ok c" "reach c qs (Suc h) r" by blast
    have m: "child_matches (qs ! h) c"
      using insert_keeps_match [OF new(4)]
        child_matches_instance [OF new_node_matches [OF new(3)] new_node_wf [OF new(3)] "1.prems"(9) new(1)]
      by simp
    have sn: "star_node_ok n'" using "1.prems"(7) new(1,5) by (simp add: star_node_ok_def)
    have kids: "\<forall>x \<in> set (children n'). star_ok x" using "1.prems"(6) c(1) new(5) by auto
    have "\<exists>r. reach n' qs h r"
    proof (cases "HasPrefix (part n) ''*''")
      case True
      with sn new(5) have "reach n' qs h n'" by (intro reach.stop) (simp_all add: star_node_ok_def)
      then show ?thesis by blast
    next
      case False
      with new(1,5) lq c(2) m have "reach n' qs h r" by (auto intro: reach.down)
      then show ?thesis by blast
    qed
    with star_okI [OF sn kids] show ?thesis by blast
  qed
qed

section \<open>Registration phases\<close>

lemma extends_trans: "extends a b \<Longrightarrow> extends b c \<Longrightarrow> extends a c"
  by (rule grows_by_trans) auto

lemma trie_insert_good:
  assumes g: "good_pattern pat" and s: "star_ok t" and w: "wf_trie t"
  shows "\<exists>t'. trie_insert t pat = Inr t' \<and> star_ok t' \<and> wf_trie t' \<and> extends t t' \<and>
           (\<forall>qs. instance_of (parse_parts pat) qs \<longrightarrow> (\<exists>r. reach t' qs 0 r))"
proof -
  from g have ne: "pat \<noteq> []" "[] \<notin> set (parse_parts pat)"
    and st: "\<forall>p \<in> set (butlast (parse_parts pat)). \<not> HasPrefix p ''*''"
    by (auto simp: good_pattern_def)
  from insert_node_total [of 0 "parse_parts pat" t pat] ne obtain t' where
    t': "insert_node t pat (parse_parts pat) 0 = Inr t'" by auto
  from star_okD [OF s] have sk: "\<forall>c \<in> set (children t). star_ok c" "star_node_ok t" by simp_all
  have r: "star_ok t' \<and> (\<exists>r. reach t' qs 0 r)" if "instance_of (parse_parts pat) qs" for qs
    using insert_node_reach [OF t' _ ne(1) _ _ sk(1) _ w that] ne(2) st sk(2) by simp
  have "star_ok t'"
    using r [OF instance_of_refl] by blast
  moreover have "wf_trie t'" by (rule insert_node_wf [OF t' w])
  moreover have "extends t t'"
    by (rule insert_node_grows_by [OF t']) (use ne in auto)
  ultimately show ?thesis using t' r by (auto simp: trie_insert_def)
qed

lemma register_good:
  "\<forall>pat \<in> set pats. good_pattern pat \<Longrightarrow> star_ok t \<Longrightarrow> wf_trie t \<Longrightarrow>
     \<exists>t'. register t pats = Inr t' \<and> star_ok t' \<and> wf_trie t' \<and> extends t t' \<and>
       (\<forall>pat \<in> set pats. \<forall>qs. instance_of (parse_parts pat) qs \<longrightarrow> (\<exists>r. reach t' qs 0 r))"
proof (induction pats arbitrary: t)
  case Nil
  then show ?case by (auto intro: grows_by_refl)
next
  case (Cons pat pats)
  from trie_insert_good [of pat t] Cons.prems obtain t1 where
    t1: "trie_insert t pat = Inr t1" "star_ok t1" "wf_trie t1" "extends t t1"
    and r1: "\<forall>qs. instance_of (parse_parts pat) qs \<longrightarrow> (\<exists>r. reach t1 qs 0 r)" by auto
  from Cons.IH [OF _ t1(2,3)] Cons.prems(1) obtain t' where
    t': "register t1 pats = Inr t'" "star_ok t'" "wf_trie t'" "extends t1 t'"
    and rs: "\<forall>pat \<in> set pats. \<forall>qs. instance_of (parse_parts pat) qs \<longrightarrow> (\<exists>r. reach t' qs 0 r)"
    by auto
  from r1 t'(4) have "\<forall>qs. instance_of (parse_parts pat) qs \<longrightarrow> (\<exists>r. reach t' qs 0 r)"
    by (blast dest: reach_extends)
  with t1 t' rs show ?case by (auto intro: extends_trans)
qed

lemma wf_trie_new_root: "wf_trie new_root"
  by (simp add: new_root_def wf_trie_def)

lemma star_ok_new_root: "star_ok new_root"
  by (simp add: new_root_def star_node_ok_def)

lemma good_built_ok: "good_built t \<Longrightarrow> star_ok t \<and> wf_trie t"
proof (induction rule: good_built.induct)
  case root
  show ?case by (simp add: star_ok_new_root wf_trie_new_root)
next
  case (add t pat t')
  from add.IH have "star_ok t" "wf_trie t" by simp_all
  from trie_insert_good [OF add.hyps(2) this] add.hyps(3) show ?case by auto
qed

text \<open>
  A registration phase of patterns with non-empty segments only extends the trie: a node
  that carried a pattern still carries one.
\<close>

lemma register_extends:
  "register t pats = Inr t' \<Longrightarrow> \<forall>pat \<in> set pats. pat \<noteq> [] \<and> [] \<notin> set (parse_parts pat) \<Longrightarrow>
     extends t t'"
proof (induction pats arbitrary: t)
  case Nil
  then show ?case by (simp add: grows_by_refl)
next
  case (Cons pat pats)
  then obtain t1 where t1: "trie_insert t pat = Inr t1" "register t1 pats = Inr t'"
    by (auto split: sum.splits)
  from Cons.prems(2) have ne: "pat \<noteq> []" "[] \<notin> set (parse_parts pat)" by simp_all
  have "extends t t1" using t1(1) unfolding trie_insert_def
    by (rule insert_node_grows_by) (use ne in auto)
  with Cons.IH [OF t1(2)] Cons.prems(2) show ?case by (auto intro: extends_trans)
qed

section \<open>Claims about registration\<close>

text \<open>
  C4. Every route registered is found (spec 8, first item, up to the stored pattern): a
  registration phase of patterns with non-empty segments and a catch-all at most at the end
  never panics, and afterwards searching for each of its patterns finds a registered node.
\<close>

theorem registration_finds_all:
  "\<forall>pat \<in> set pats. good_pattern pat \<Longrightarrow>
     \<exists>t. register new_root pats = Inr t \<and> (\<forall>pat \<in> set pats. \<exists>r. trie_search t pat = Inr (Some r))"
proof -
  assume g: "\<forall>pat \<in> set pats. good_pattern pat"
  from register_good [OF g star_ok_new_root wf_trie_new_root] obtain t where
    t: "register new_root pats = Inr t" and r: "\<forall>pat \<in> set pats. \<exists>r. reach t (parse_parts pat) 0 r"
    using instance_of_refl by blast
  have "\<forall>pat \<in> set pats. \<exists>r. trie_search t pat = Inr (Some r)"
    using r by (auto simp: trie_search_def dest: reach_search)
  with t show ?thesis by blast
qed

theorem registration_finds_all_witness:
  "\<exists>t. register new_root [''/p/:id'', ''/p/new'', ''/static/*filepath''] = Inr t \<and>
     (\<forall>pat \<in> set [''/p/:id'', ''/p/new'', ''/static/*filepath'']. \<exists>r. trie_search t pat = Inr (Some r))"
proof -
  have "\<forall>pat \<in> set [''/p/:id'', ''/p/new'', ''/static/*filepath'']. good_pattern pat"
    by (simp add: good_pattern_def parse_parts_def go_eval)
  from registration_finds_all [OF this] show ?thesis .
qed

text \<open>
  C14. Spec 8, first item, in full: after a registration phase of well-formed patterns,
  every path that is an instance of a registered pattern (each parameter or catch-all
  segment replaced by any segment) finds a registered node. No condition on collisions with
  other patterns is needed for finding some node; which node is found is the subject of
  C2 and C3.
\<close>

theorem registration_finds_instances:
  "\<forall>pat \<in> set pats. good_pattern pat \<Longrightarrow>
     \<exists>t. register new_root pats = Inr t \<and>
       (\<forall>pat \<in> set pats. \<forall>path. instance_of (parse_parts pat) (parse_parts path) \<longrightarrow>
          (\<exists>r. trie_search t path = Inr (Some r)))"
proof -
  assume g: "\<forall>pat \<in> set pats. good_pattern pat"
  from register_good [OF g star_ok_new_root wf_trie_new_root] obtain t where
    t: "register new_root pats = Inr t"
    and r: "\<forall>pat \<in> set pats. \<forall>qs. instance_of (parse_parts pat) qs \<longrightarrow> (\<exists>r. reach t qs 0 r)"
    by blast
  have "\<forall>pat \<in> set pats. \<forall>path. instance_of (parse_parts pat) (parse_parts path) \<longrightarrow>
          (\<exists>r. trie_search t path = Inr (Some r))"
    using r by (auto simp: trie_search_def dest: reach_search)
  with t show ?thesis by blast
qed

theorem registration_finds_instances_witness:
  "\<exists>t. register new_root [''/p/:id'', ''/static/*filepath''] = Inr t \<and>
     (\<forall>pat \<in> set [''/p/:id'', ''/static/*filepath'']. \<forall>path.
        instance_of (parse_parts pat) (parse_parts path) \<longrightarrow> (\<exists>r. trie_search t path = Inr (Some r))) \<and>
     instance_of (parse_parts ''/p/:id'') (parse_parts ''/p/42'')"
proof -
  have "\<forall>pat \<in> set [''/p/:id'', ''/static/*filepath'']. good_pattern pat"
    by (simp add: good_pattern_def parse_parts_def go_eval)
  moreover have "instance_of (parse_parts ''/p/:id'') (parse_parts ''/p/42'')"
    by (simp add: instance_of_def dyn_seg_def parse_parts_def go_eval less_Suc_eq nth_Cons')
  ultimately show ?thesis using registration_finds_instances by blast
qed

text \<open>
  C7. The invariant of the reachable tries: the root keeps an empty, non-wild segment and
  every other node is well formed (non-empty segment, \<open>isWild\<close> derived from its first
  byte), in every trie a sequence of successful registrations builds.
\<close>

theorem built_wf: "built t \<Longrightarrow> wf_trie t \<and> part t = [] \<and> \<not> isWild t"
proof (induction rule: built.induct)
  case root
  show ?case by (simp add: new_root_def wf_trie_def)
next
  case (add t pat t')
  from add.hyps(2) have "insert_node t pat (parse_parts pat) 0 = Inr t'" by (simp add: trie_insert_def)
  with add.IH show ?case by (auto dest: insert_node_wf insert_keeps_part)
qed

theorem built_wf_witness:
  "wf_trie (Node [] [] [Node [] ''p'' [Node '':id'' '':id'' [] True] False] False) \<and>
   part (Node [] [] [Node [] ''p'' [Node '':id'' '':id'' [] True] False] False) = [] \<and>
   \<not> isWild (Node [] [] [Node [] ''p'' [Node '':id'' '':id'' [] True] False] False)"
proof -
  have "trie_insert new_root ''/p/:id'' =
      Inr (Node [] [] [Node [] ''p'' [Node '':id'' '':id'' [] True] False] False)"
    by (simp add: trie_insert_def new_root_def parse_parts_def insert_node.simps go_eval)
  then have "built (Node [] [] [Node [] ''p'' [Node '':id'' '':id'' [] True] False] False)"
    by (rule built.add [OF built.root])
  from built_wf [OF this] show ?thesis .
qed

text \<open>
  C8. The trie is append-only (spec 3): a registration phase that succeeds never removes a
  node, never changes a node's segment or \<open>isWild\<close> flag, and keeps the order of every
  node's children, appending new ones at the end.
\<close>

theorem register_grows: "register t pats = Inr t' \<Longrightarrow> grows t t'"
proof (induction pats arbitrary: t)
  case Nil
  then show ?case by (simp add: grows_by_refl)
next
  case (Cons pat pats)
  then obtain t1 where t1: "trie_insert t pat = Inr t1" "register t1 pats = Inr t'"
    by (auto split: sum.splits)
  have "grows t t1" using t1(1) by (auto simp: trie_insert_def intro: insert_node_grows_by)
  from grows_by_trans [OF _ this Cons.IH [OF t1(2)]] show ?case by simp
qed


theorem register_grows_witness:
  "grows (Node [] [] [Node [] ''p'' [Node '':id'' '':id'' [] True] False] False)
     (Node [] [] [Node [] ''p'' [Node '':id'' '':id'' [] True] False,
                  Node [] ''static'' [Node ''*f'' ''*f'' [] True] False] False)"
proof -
  have "register (Node [] [] [Node [] ''p'' [Node '':id'' '':id'' [] True] False] False) [''/static/*f''] =
      Inr (Node [] [] [Node [] ''p'' [Node '':id'' '':id'' [] True] False,
                       Node [] ''static'' [Node ''*f'' ''*f'' [] True] False] False)"
    by (simp add: trie_insert_def parse_parts_def insert_node.simps go_eval)
  from register_grows [OF this] show ?thesis .
qed

text \<open>
  C15. Liveness of registration (spec 4.1, 7): from every state reached by registering
  well-formed patterns, registering one more well-formed pattern always completes without a
  panic, the state reached is again such a state, and in it every path that is an instance of
  the new pattern is served. So the registration phase can always make progress.
\<close>

theorem good_registration_progress:
  "good_built t \<Longrightarrow> good_pattern pat \<Longrightarrow>
     \<exists>t'. trie_insert t pat = Inr t' \<and> good_built t' \<and>
       (\<forall>path. instance_of (parse_parts pat) (parse_parts path) \<longrightarrow>
          (\<exists>r. trie_search t' path = Inr (Some r)))"
proof -
  assume gb: "good_built t" and g: "good_pattern pat"
  from good_built_ok [OF gb] have s: "star_ok t" and w: "wf_trie t" by simp_all
  from trie_insert_good [OF g s w] obtain t' where t': "trie_insert t pat = Inr t'"
    and r: "\<forall>qs. instance_of (parse_parts pat) qs \<longrightarrow> (\<exists>r. reach t' qs 0 r)" by blast
  have "good_built t'" by (rule good_built.add [OF gb g t'])
  moreover have "\<forall>path. instance_of (parse_parts pat) (parse_parts path) \<longrightarrow>
      (\<exists>r. trie_search t' path = Inr (Some r))"
    using r by (auto simp: trie_search_def dest: reach_search)
  ultimately show ?thesis using t' by blast
qed

theorem good_registration_progress_witness:
  "\<exists>t'. trie_insert new_root ''/p/:id'' = Inr t' \<and> good_built t' \<and>
     (\<forall>path. instance_of (parse_parts ''/p/:id'') (parse_parts path) \<longrightarrow>
        (\<exists>r. trie_search t' path = Inr (Some r)))"
proof -
  have "good_pattern ''/p/:id''" by (simp add: good_pattern_def parse_parts_def go_eval)
  from good_registration_progress [OF good_built.root this] show ?thesis .
qed

text \<open>
  C16. A served path stays served (spec 3, 8): once a path finds a registered node, it
  still finds one after any later registration phase of patterns whose segments are all
  non-empty; new children are only appended and patterns are never cleared. (A pattern with
  an empty segment can clear one: registering \<open>""\<close> sets the root's pattern to
  \<open>""\<close>.)
\<close>

theorem route_stays_served:
  "trie_search t path = Inr (Some r) \<Longrightarrow>
     \<forall>pat \<in> set pats. pat \<noteq> [] \<and> [] \<notin> set (parse_parts pat) \<Longrightarrow>
     register t pats = Inr t' \<Longrightarrow> \<exists>r'. trie_search t' path = Inr (Some r')"
proof -
  assume s: "trie_search t path = Inr (Some r)"
    and ne: "\<forall>pat \<in> set pats. pat \<noteq> [] \<and> [] \<notin> set (parse_parts pat)"
    and reg: "register t pats = Inr t'"
  from s have "reach t (parse_parts path) 0 r"
    unfolding trie_search_def by (rule search_Some_reach [rotated]) simp
  from reach_extends [OF this register_extends [OF reg ne]] obtain r' where
    "reach t' (parse_parts path) 0 r'" by blast
  from reach_search [OF this] show ?thesis by (simp add: trie_search_def)
qed

theorem route_stays_served_witness:
  "trie_search (Node [] [] [Node [] ''p'' [Node '':id'' '':id'' [] True] False] False) ''/p/42'' =
     Inr (Some (Node '':id'' '':id'' [] True)) \<and>
   [] \<notin> set (parse_parts ''/p'') \<and> [] \<notin> set (parse_parts ''/static/*f'') \<and>
   register (Node [] [] [Node [] ''p'' [Node '':id'' '':id'' [] True] False] False)
     [''/p'', ''/static/*f''] =
     Inr (Node [] [] [Node ''p'' ''p'' [Node '':id'' '':id'' [] True] False,
                      Node [] ''static'' [Node ''*f'' ''*f'' [] True] False] False) \<and>
   (\<exists>r'. trie_search (Node [] [] [Node ''p'' ''p'' [Node '':id'' '':id'' [] True] False,
                      Node [] ''static'' [Node ''*f'' ''*f'' [] True] False] False) ''/p/42'' =
     Inr (Some r'))"
proof -
  have s: "trie_search (Node [] [] [Node [] ''p'' [Node '':id'' '':id'' [] True] False] False) ''/p/42'' =
     Inr (Some (Node '':id'' '':id'' [] True))"
    by (simp add: trie_search_def parse_parts_def search.simps go_eval)
  have ne1: "[] \<notin> set (parse_parts ''/p'')" "[] \<notin> set (parse_parts ''/static/*f'')"
    by (simp_all add: parse_parts_def go_eval)
  then have ne: "\<forall>pat \<in> set [''/p'', ''/static/*f'']. pat \<noteq> [] \<and> [] \<notin> set (parse_parts pat)"
    by simp
  have reg: "register (Node [] [] [Node [] ''p'' [Node '':id'' '':id'' [] True] False] False)
     [''/p'', ''/static/*f''] =
     Inr (Node [] [] [Node ''p'' ''p'' [Node '':id'' '':id'' [] True] False,
                      Node [] ''static'' [Node ''*f'' ''*f'' [] True] False] False)"
    by (simp add: trie_insert_def parse_parts_def insert_node.simps go_eval)
  from s ne1 reg route_stays_served [OF s ne reg] show ?thesis by blast
qed

end
