(* ===== verification/Trie_Positions.thy ===== *)
theory Trie_Positions
  imports Route_Trie
begin

text \<open>
  The route trie seen through positions. A position is the list of child indices from the
  root (\<open>children[i]\<close> at each level); \<open>subtree_at\<close> is the node there and
  \<open>pattern_at\<close> its \<open>pattern\<close> field, \<open>""\<close> where there is no node. The map
  \<open>pattern_at t\<close> is the abstract state of a trie, and \<open>descend_path\<close> is the position
  that \<open>insert\<close> walks to, choosing \<open>matchChild\<close> at each level (\<open>trie.go\<close> line 42).
  The lemmas show that \<open>insert\<close> is a point update of the abstract state at that position,
  that positions chosen by \<open>matchChild\<close> survive later insertions, and hence spec section 3:
  a node carries a pattern exactly when some insertion ended at it.
\<close>

type_synonym pos = "nat list"

fun subtree_at :: "node \<Rightarrow> pos \<Rightarrow> node option" where
  "subtree_at n [] = Some n"
| "subtree_at n (i # is) = (if i < length (children n) then subtree_at (children n ! i) is else None)"

definition pattern_at :: "node \<Rightarrow> pos \<Rightarrow> string" where
  "pattern_at n ps = (case subtree_at n ps of None \<Rightarrow> [] | Some r \<Rightarrow> pattern r)"

function descend_path :: "node \<Rightarrow> string list \<Rightarrow> nat \<Rightarrow> pos option" where
  "descend_path n parts height =
    (if length parts \<le> height then Some []
     else case matchChild_idx n (parts ! height) of
            None \<Rightarrow> None
          | Some i \<Rightarrow> map_option (Cons i) (descend_path (children n ! i) parts (Suc height)))"
  by pat_completeness auto
termination
  by (relation "measure (\<lambda>(n, parts, height). length parts - height)") auto

declare descend_path.simps [simp del]

section \<open>The abstract state\<close>

lemma pattern_at_Nil [simp]: "pattern_at n [] = pattern n"
  by (simp add: pattern_at_def)

lemma pattern_at_Cons [simp]:
  "pattern_at n (i # ps) = (if i < length (children n) then pattern_at (children n ! i) ps else [])"
  by (simp add: pattern_at_def)

lemma pattern_at_leaf: "children n = [] \<Longrightarrow> pattern_at n ps = (if ps = [] then pattern n else [])"
  by (cases ps) simp_all

lemma descend_path_end: "length parts \<le> h \<Longrightarrow> descend_path n parts h = Some []"
  by (simp add: descend_path.simps)

lemma descend_path_step:
  "h < length parts \<Longrightarrow> matchChild_idx n (parts ! h) = Some i \<Longrightarrow>
     descend_path n parts h = map_option (Cons i) (descend_path (children n ! i) parts (Suc h))"
  by (simp add: descend_path.simps)

section \<open>insert as a point update\<close>

text \<open>
  The value \<open>insert\<close> stores at the end of its walk: the pattern it is passed at the top
  level, the last segment below it (line 49 passes \<open>part\<close>).
\<close>

lemma stored_value_step:
  "h < length parts \<Longrightarrow>
     (if Suc h = length parts then parts ! h else last parts) = last parts"
  by (auto simp: nth_last)

lemma insert_node_update:
  "insert_node n pat parts h = Inr n' \<Longrightarrow>
     \<exists>ps. descend_path n' parts h = Some ps \<and>
       (\<forall>qs. pattern_at n' qs =
          (if qs = ps then (if h = length parts then pat else last parts) else pattern_at n qs))"
proof (induction n pat parts h arbitrary: n' rule: insert_node.induct)
  case (1 n pat parts h)
  from "1.prems" show ?case
  proof (cases rule: insert_InrE)
    case at_end
    have "pattern_at n' qs = (if qs = [] then pat else pattern_at n qs)" for qs
      using at_end by (cases qs) simp_all
    with at_end show ?thesis by (auto simp: descend_path_end)
  next
    case (found i c)
    from found(2) have i: "i < length (children n)" by (auto dest: matchChild_idx_SomeD)
    have m: "child_matches (parts ! h) c"
      using insert_keeps_match [OF found(3)] matchChild_idx_SomeD [OF found(2)] by simp
    have sel: "matchChild_idx n' (parts ! h) = Some i"
      using reselect_found [OF found(2) m] found(4) by simp
    obtain ps where ps: "descend_path c parts (Suc h) = Some ps"
      and upd0: "\<forall>qs. pattern_at c qs = (if qs = ps then
          (if Suc h = length parts then parts ! h else last parts) else pattern_at (children n ! i) qs)"
      using "1.IH"(2) [OF _ _ refl found(2,3)] found(1) by auto
    have upd: "\<forall>qs. pattern_at c qs = (if qs = ps then last parts else pattern_at (children n ! i) qs)"
      using upd0 unfolding stored_value_step [OF found(1)] .
    have "descend_path n' parts h = Some (i # ps)"
      using descend_path_step [OF found(1) sel] found(4) i ps by simp
    moreover have "pattern_at n' qs = (if qs = i # ps then last parts else pattern_at n qs)" for qs
    proof (cases qs)
      case Nil
      with found(4) show ?thesis by simp
    next
      case (Cons j rs)
      with found(4) i upd show ?thesis by (cases "j = i") simp_all
    qed
    ultimately show ?thesis using found(1) by auto
  next
    case (new child c)
    let ?k = "length (children n)"
    have m: "child_matches (parts ! h) c"
      using insert_keeps_match [OF new(4)] new_node_matches [OF new(3)] by simp
    have sel: "matchChild_idx n' (parts ! h) = Some ?k"
      using reselect_new [OF new(2) m] new(5) by simp
    have leaf: "children child = []" "pattern child = []" using new(3) by (simp_all add: new_node_Inr)
    obtain ps where ps: "descend_path c parts (Suc h) = Some ps"
      and upd0: "\<forall>qs. pattern_at c qs = (if qs = ps then
          (if Suc h = length parts then parts ! h else last parts) else pattern_at child qs)"
      using "1.IH"(1) [OF _ _ refl new(2,3,4)] new(1) by auto
    have upd: "\<forall>qs. pattern_at c qs = (if qs = ps then last parts else pattern_at child qs)"
      using upd0 unfolding stored_value_step [OF new(1)] .
    have "descend_path n' parts h = Some (?k # ps)"
      using descend_path_step [OF new(1) sel] new(5) ps by simp
    moreover have "pattern_at n' qs = (if qs = ?k # ps then last parts else pattern_at n qs)" for qs
    proof (cases qs)
      case Nil
      with new(5) show ?thesis by simp
    next
      case (Cons j rs)
      have "pattern_at child rs = []" using leaf by (simp add: pattern_at_leaf)
      with Cons new(5) upd show ?thesis
        by (cases "j < ?k") (auto simp: nth_append less_Suc_eq)
    qed
    ultimately show ?thesis using new(1) by auto
  qed
qed

section \<open>Positions chosen by matchChild survive growth\<close>

lemma matchChild_idx_grows:
  assumes g: "grows_by Q n n'" and m: "matchChild_idx n p = Some i"
  shows "matchChild_idx n' p = Some i \<and> grows_by Q (children n ! i) (children n' ! i)"
proof -
  from g have l: "length (children n) \<le> length (children n')"
    and r: "list_all2 (grows_by Q) (children n) (take (length (children n)) (children n'))"
    by (simp_all add: grows_by_sel)
  from r have gj: "grows_by Q (children n ! j) (children n' ! j)" if "j < length (children n)" for j
    using that by (auto simp: list_all2_conv_all_nth)
  from matchChild_idx_SomeD [OF m] have i: "i < length (children n)"
    and mi: "child_matches p (children n ! i)" and before: "\<forall>j < i. \<not> child_matches p (children n ! j)"
    by auto
  have "first_index (child_matches p) (children n') 0 = Some (0 + i)"
  proof (rule first_index_eqI)
    show "i < length (children n')" using i l by simp
    show "child_matches p (children n' ! i)" using mi grows_by_matches [OF gj [OF i]] by simp
    show "\<forall>j < i. \<not> child_matches p (children n' ! j)"
      using before i grows_by_matches [OF gj] by auto
  qed
  with gj [OF i] show ?thesis by (simp add: matchChild_idx_def)
qed

lemma descend_path_grows:
  "descend_path n parts h = Some ps \<Longrightarrow> grows_by Q n n' \<Longrightarrow> descend_path n' parts h = Some ps"
proof (induction n parts h arbitrary: n' ps rule: descend_path.induct)
  case (1 n parts h)
  show ?case
  proof (cases "length parts \<le> h")
    case True
    with "1.prems"(1) show ?thesis by (simp add: descend_path_end)
  next
    case False
    with "1.prems"(1) obtain i ps' where m: "matchChild_idx n (parts ! h) = Some i"
      and ps': "descend_path (children n ! i) parts (Suc h) = Some ps'" and ps: "ps = i # ps'"
      by (auto simp: descend_path.simps [of n] split: option.splits)
    from matchChild_idx_grows [OF "1.prems"(2) m] have m': "matchChild_idx n' (parts ! h) = Some i"
      and gi: "grows_by Q (children n ! i) (children n' ! i)" by simp_all
    from "1.IH" [OF False m ps' gi] m' False ps show ?thesis
      by (simp add: descend_path_step)
  qed
qed

section \<open>Registration phases\<close>

lemma stored_value_nonempty:
  "pat \<noteq> [] \<Longrightarrow> [] \<notin> set parts \<Longrightarrow> (if 0 = length parts then pat else last parts) \<noteq> []"
  by (cases parts rule: rev_cases) auto

lemma pattern_at_new_root [simp]: "pattern_at new_root qs = []"
  by (simp add: new_root_def pattern_at_leaf)

text \<open>
  The positions that carry a pattern after a registration phase: those that carried one
  before, and the end of the walk of every pattern registered, read in the final trie.
\<close>

lemma register_terminals:
  "register t pats = Inr t' \<Longrightarrow> \<forall>pat \<in> set pats. pat \<noteq> [] \<and> [] \<notin> set (parse_parts pat) \<Longrightarrow>
     pattern_at t' qs \<noteq> [] \<longleftrightarrow>
       pattern_at t qs \<noteq> [] \<or> (\<exists>pat \<in> set pats. descend_path t' (parse_parts pat) 0 = Some qs)"
proof (induction pats arbitrary: t)
  case Nil
  then show ?case by simp
next
  case (Cons pat pats)
  then obtain t1 where t1: "trie_insert t pat = Inr t1" "register t1 pats = Inr t'"
    by (auto split: sum.splits)
  from Cons.prems(2) have ne: "pat \<noteq> []" "[] \<notin> set (parse_parts pat)"
    and ok: "\<forall>pat \<in> set pats. pat \<noteq> [] \<and> [] \<notin> set (parse_parts pat)" by simp_all
  from insert_node_update [OF t1(1) [unfolded trie_insert_def]] obtain ps where
    ps: "descend_path t1 (parse_parts pat) 0 = Some ps"
    and upd: "\<forall>qs. pattern_at t1 qs = (if qs = ps
        then (if 0 = length (parse_parts pat) then pat else last (parse_parts pat)) else pattern_at t qs)"
    by blast
  have t1q: "pattern_at t1 qs \<noteq> [] \<longleftrightarrow> qs = ps \<or> pattern_at t qs \<noteq> []"
    using upd stored_value_nonempty [OF ne] by auto
  have "descend_path t' (parse_parts pat) 0 = Some ps"
    by (rule descend_path_grows [OF ps register_extends [OF t1(2) ok]])
  with Cons.IH [OF t1(2) ok] t1q show ?case by auto
qed

section \<open>Where the search stops\<close>

lemma reach_position:
  "reach n qs h r \<Longrightarrow> h \<le> length qs \<Longrightarrow>
     \<exists>ps. subtree_at n ps = Some r \<and> h + length ps \<le> length qs \<and>
       (h + length ps = length qs \<or> HasPrefix (part r) ''*'')"
proof (induction rule: reach.induct)
  case (stop parts h n)
  then show ?case by (intro exI [of _ "[]"]) auto
next
  case (down h parts n c r)
  from down.IH down.hyps(1) obtain ps where
    ps: "subtree_at c ps = Some r" "Suc h + length ps \<le> length parts"
      "Suc h + length ps = length parts \<or> HasPrefix (part r) ''*''" by auto
  from down.hyps(3) obtain i where i: "i < length (children n)" "children n ! i = c"
    by (auto simp: in_set_conv_nth)
  with ps show ?case by (intro exI [of _ "i # ps"]) simp
qed

section \<open>Claims about terminal positions\<close>

text \<open>
  C17. Spec 3: after a registration phase of patterns with non-empty segments, a node of
  the trie carries a pattern exactly when the walk of some registered pattern ends at it.
  In particular no scaffolding node created on the way carries one.
\<close>

theorem terminal_iff_registered:
  "\<forall>pat \<in> set pats. pat \<noteq> [] \<and> [] \<notin> set (parse_parts pat) \<Longrightarrow> register new_root pats = Inr t \<Longrightarrow>
     pattern_at t qs \<noteq> [] \<longleftrightarrow> (\<exists>pat \<in> set pats. descend_path t (parse_parts pat) 0 = Some qs)"
  using register_terminals [of new_root pats t qs] by simp

theorem terminal_iff_registered_witness:
  "register new_root [''/p/:id'', ''/p/new''] =
     Inr (Node [] [] [Node [] ''p'' [Node ''new'' '':id'' [] True] False] False) \<and>
   (pattern_at (Node [] [] [Node [] ''p'' [Node ''new'' '':id'' [] True] False] False) [0, 0] \<noteq> [] \<longleftrightarrow>
     (\<exists>pat \<in> set [''/p/:id'', ''/p/new'']. descend_path
        (Node [] [] [Node [] ''p'' [Node ''new'' '':id'' [] True] False] False) (parse_parts pat) 0 =
        Some [0, 0])) \<and>
   (pattern_at (Node [] [] [Node [] ''p'' [Node ''new'' '':id'' [] True] False] False) [0] \<noteq> [] \<longleftrightarrow>
     (\<exists>pat \<in> set [''/p/:id'', ''/p/new'']. descend_path
        (Node [] [] [Node [] ''p'' [Node ''new'' '':id'' [] True] False] False) (parse_parts pat) 0 =
        Some [0]))"
proof -
  have ok: "\<forall>pat \<in> set [''/p/:id'', ''/p/new'']. pat \<noteq> [] \<and> [] \<notin> set (parse_parts pat)"
    by (simp add: parse_parts_def go_eval)
  have r: "register new_root [''/p/:id'', ''/p/new''] =
     Inr (Node [] [] [Node [] ''p'' [Node ''new'' '':id'' [] True] False] False)"
    by (simp add: trie_insert_def new_root_def parse_parts_def insert_node.simps go_eval)
  from r terminal_iff_registered [OF ok r, of "[0, 0]"] terminal_iff_registered [OF ok r, of "[0]"]
  show ?thesis by blast
qed

text \<open>
  C18. Refinement: on the abstract state \<open>pattern_at\<close>, a registration that returns is
  the point update at the position its walk ends in, with the value line 35 stores there
  (the pattern itself when the path has no segment, otherwise its last segment, because
  line 49 passes \<open>part\<close> for \<open>pattern\<close>); no other node's pattern changes.
\<close>

theorem trie_insert_refines_update:
  "trie_insert t pat = Inr t' \<Longrightarrow>
     \<exists>ps. descend_path t' (parse_parts pat) 0 = Some ps \<and>
       pattern_at t' = (pattern_at t)(ps := (if parse_parts pat = [] then pat else last (parse_parts pat)))"
proof -
  assume "trie_insert t pat = Inr t'"
  from insert_node_update [OF this [unfolded trie_insert_def]] obtain ps where
    "descend_path t' (parse_parts pat) 0 = Some ps"
    "\<forall>qs. pattern_at t' qs = (if qs = ps
        then (if 0 = length (parse_parts pat) then pat else last (parse_parts pat)) else pattern_at t qs)"
    by blast
  then show ?thesis by (intro exI [of _ ps]) auto
qed

theorem trie_insert_refines_update_witness:
  "trie_insert new_root ''/p/:id'' = Inr (Node [] [] [Node [] ''p'' [Node '':id'' '':id'' [] True] False] False) \<and>
   pattern_at (Node [] [] [Node [] ''p'' [Node '':id'' '':id'' [] True] False] False) =
     (pattern_at new_root)([0, 0] := '':id'')"
proof -
  have e: "trie_insert new_root ''/p/:id'' =
      Inr (Node [] [] [Node [] ''p'' [Node '':id'' '':id'' [] True] False] False)"
    by (simp add: trie_insert_def new_root_def parse_parts_def insert_node.simps go_eval)
  have pp: "parse_parts ''/p/:id'' = [''p'', '':id'']" by (simp add: parse_parts_def go_eval)
  have d: "descend_path (Node [] [] [Node [] ''p'' [Node '':id'' '':id'' [] True] False] False)
      [''p'', '':id''] 0 = Some [0, 0]"
    by (simp add: descend_path.simps go_eval)
  from trie_insert_refines_update [OF e] pp d e show ?thesis by auto
qed

text \<open>
  C23. The search consumes one segment per level (spec 8): a node it returns sits at a
  position no deeper than the number of segments left, and strictly above the end of the
  path only if it is a catch-all. So a catch-all never matches zero segments: after
  registering \<open>/a/*rest\<close>, the path \<open>/a\<close> cannot reach the catch-all node, which is
  one level deeper than the path is long.
\<close>

theorem search_result_depth:
  "h \<le> length qs \<Longrightarrow> search n qs h = Inr (Some r) \<Longrightarrow>
     \<exists>ps. subtree_at n ps = Some r \<and> h + length ps \<le> length qs \<and>
       (h + length ps = length qs \<or> HasPrefix (part r) ''*'')"
  by (rule reach_position [OF search_Some_reach])

theorem search_result_depth_witness:
  "search (Node [] [] [Node [] ''a'' [Node ''*rest'' ''*rest'' [] True] False] False) [''a'', ''b''] 0 = Inr (Some (Node ''*rest'' ''*rest'' [] True)) \<and>
   (\<exists>ps. subtree_at (Node [] [] [Node [] ''a'' [Node ''*rest'' ''*rest'' [] True] False] False) ps = Some (Node ''*rest'' ''*rest'' [] True) \<and> 0 + length ps \<le> length [''a'', ''b''] \<and>
     (0 + length ps = length [''a'', ''b''] \<or> HasPrefix (part (Node ''*rest'' ''*rest'' [] True)) ''*''))"
proof -
  have s: "search (Node [] [] [Node [] ''a'' [Node ''*rest'' ''*rest'' [] True] False] False) [''a'', ''b''] 0 = Inr (Some (Node ''*rest'' ''*rest'' [] True))"
    by (simp add: search.simps go_eval)
  have "(0::nat) \<le> length [''a'', ''b'']" by simp
  from search_result_depth [OF this s] s show ?thesis by blast
qed

end
