(* ===== verification/Trie_Heap.thy ===== *)
theory Trie_Heap
  imports Route_Trie
begin

text \<open>
  \<open>src/gee/trie.go\<close> as written: nodes live on the Go heap, \<open>children\<close> is a slice of
  pointers, and \<open>insert\<close> appends a fresh child to \<open>n.children\<close> before it recurses into
  it, mutating the child through the pointer it has just stored. The state is an explicit
  heap of \<open>hnode\<close>s with an allocation limit. \<open>rep h p n F\<close> says that the pointer
  \<open>p\<close> represents the value-level node \<open>n\<close> of \<open>Trie_Node\<close> and that the nodes
  involved occupy exactly the addresses \<open>F\<close>, the children's footprints pairwise disjoint
  and disjoint from their parent: the heap is a tree there. The main lemma shows that the
  pointer program refines the value model, on every branch and with the same panics.
\<close>

section \<open>Heap state\<close>

type_synonym ptr = nat

record hnode =
  h_pattern :: string
  h_part :: string
  h_children :: "ptr list"
  h_isWild :: bool

record hstate =
  hheap :: "ptr \<rightharpoonup> hnode"
  hlim :: nat

section \<open>Go primitives on the heap\<close>

text \<open>\<open>&node{...}\<close>: a fresh address holding the literal.\<close>

definition h_alloc :: "hnode \<Rightarrow> hstate \<Rightarrow> ptr \<times> hstate" where
  "h_alloc nd s = (hlim s, s\<lparr>hheap := (hheap s)(hlim s \<mapsto> nd), hlim := Suc (hlim s)\<rparr>)"

text \<open>Writing a modified node back through its pointer (\<open>n.pattern = ...\<close>, \<open>n.children = ...\<close>).\<close>

definition h_store :: "hstate \<Rightarrow> ptr \<Rightarrow> hnode \<Rightarrow> hstate" where
  "h_store s p nd = s\<lparr>hheap := (hheap s)(p \<mapsto> nd)\<rparr>"

text \<open>The router's root \<open>&node{}\<close>, alone on the heap at address 0.\<close>

definition h_root :: hstate where
  "h_root = \<lparr>hheap = [0 \<mapsto> \<lparr>h_pattern = [], h_part = [], h_children = [], h_isWild = False\<rparr>], hlim = 1\<rparr>"

section \<open>matchChild and insert on the heap\<close>

text \<open>The test of line 14, reading the child through its pointer.\<close>

definition h_child_matches :: "(ptr \<rightharpoonup> hnode) \<Rightarrow> string \<Rightarrow> ptr \<Rightarrow> bool" where
  "h_child_matches h p q \<longleftrightarrow> (case h q of None \<Rightarrow> False | Some c \<Rightarrow> h_part c = p \<or> h_isWild c)"

definition h_matchChild :: "hstate \<Rightarrow> hnode \<Rightarrow> string \<Rightarrow> nat option" where
  "h_matchChild s n p = first_index (h_child_matches (hheap s) p) (h_children n) 0"

text \<open>
  Lines 31--50 with the receiver \<open>p\<close>. On a missing child, the composite literal is
  evaluated first (\<open>part[0]\<close> may panic), then the node is allocated, then
  \<open>n.children = append(n.children, child)\<close> is written back, and the recursion runs on
  the new child's address.
\<close>

function h_insert :: "hstate \<Rightarrow> ptr \<Rightarrow> string \<Rightarrow> string list \<Rightarrow> nat \<Rightarrow> go_panic + hstate" where
  "h_insert s p pat parts height =
    (case hheap s p of
       None \<Rightarrow> Inl NilDereference
     | Some n \<Rightarrow>
        (if length parts = height then Inr (h_store s p (n\<lparr>h_pattern := pat\<rparr>))
         else if length parts < height then Inl IndexOutOfRange
         else (let part = parts ! height in
           case h_matchChild s n part of
             Some i \<Rightarrow> h_insert s (h_children n ! i) part parts (Suc height)
           | None \<Rightarrow>
              (case part of
                 [] \<Rightarrow> Inl IndexOutOfRange
               | c # _ \<Rightarrow>
                  (let (q, s1) = h_alloc \<lparr>h_pattern = [], h_part = part, h_children = [],
                                   h_isWild = (c = CHR '':'' \<or> c = CHR ''*'')\<rparr> s;
                       s2 = h_store s1 p (n\<lparr>h_children := h_children n @ [q]\<rparr>)
                   in h_insert s2 q part parts (Suc height))))))"
  by pat_completeness auto
termination
  by (relation "measure (\<lambda>(s, p, pat, parts, height). length parts - height)") auto

declare h_insert.simps [simp del]

text \<open>Lines 21--29: the children that match, as pointers, in slice order.\<close>

definition h_matchChildren :: "hstate \<Rightarrow> hnode \<Rightarrow> string \<Rightarrow> ptr list" where
  "h_matchChildren s n p = filter (h_child_matches (hheap s) p) (h_children n)"

text \<open>Lines 52--70 with the receiver \<open>p\<close>; the loop of lines 63--68 is \<open>h_search_children\<close>.\<close>

function h_search :: "hstate \<Rightarrow> ptr \<Rightarrow> string list \<Rightarrow> nat \<Rightarrow> go_panic + ptr option"
  and h_search_children :: "hstate \<Rightarrow> ptr list \<Rightarrow> string list \<Rightarrow> nat \<Rightarrow> go_panic + ptr option" where
  "h_search s p parts height =
    (case hheap s p of
       None \<Rightarrow> Inl NilDereference
     | Some n \<Rightarrow>
        (if length parts = height \<or> HasPrefix (h_part n) ''*'' then
           (if h_pattern n = [] then Inr None else Inr (Some p))
         else if length parts < height then Inl IndexOutOfRange
         else h_search_children s (h_matchChildren s n (parts ! height)) parts (Suc height)))"
| "h_search_children s [] parts height = Inr None"
| "h_search_children s (q # qs) parts height =
    (case h_search s q parts height of
       Inl e \<Rightarrow> Inl e
     | Inr (Some res) \<Rightarrow> Inr (Some res)
     | Inr None \<Rightarrow> h_search_children s qs parts height)"
  by pat_completeness auto
termination
  by (relation "measures
       [\<lambda>x. case x of Inl (s, p, parts, h) \<Rightarrow> length parts - h | Inr (s, qs, parts, h) \<Rightarrow> length parts - h,
        \<lambda>x. case x of Inl _ \<Rightarrow> 0 | Inr (s, qs, parts, h) \<Rightarrow> Suc (length qs)]") auto

declare h_search.simps [simp del]

text \<open>A registration phase on the router's pointer trie (the router is modelled from the spec).\<close>

fun h_register :: "hstate \<Rightarrow> ptr \<Rightarrow> string list \<Rightarrow> go_panic + hstate" where
  "h_register s p [] = Inr s"
| "h_register s p (pat # pats) =
    (case h_insert s p pat (parse_parts pat) 0 of Inl e \<Rightarrow> Inl e | Inr s' \<Rightarrow> h_register s' p pats)"

section \<open>Representation\<close>

inductive rep :: "(ptr \<rightharpoonup> hnode) \<Rightarrow> ptr \<Rightarrow> node \<Rightarrow> ptr set \<Rightarrow> bool"
  and reps :: "(ptr \<rightharpoonup> hnode) \<Rightarrow> ptr list \<Rightarrow> node list \<Rightarrow> ptr set \<Rightarrow> bool" where
  rep: "h p = Some hn \<Longrightarrow> reps h (h_children hn) cs F \<Longrightarrow> p \<notin> F \<Longrightarrow>
    rep h p (Node (h_pattern hn) (h_part hn) cs (h_isWild hn)) (insert p F)"
| reps_Nil: "reps h [] [] {}"
| reps_Cons: "rep h q c B \<Longrightarrow> reps h qs cs F \<Longrightarrow> B \<inter> F = {} \<Longrightarrow> reps h (q # qs) (c # cs) (B \<union> F)"

inductive_cases repE: "rep h p n F"
inductive_cases reps_NilE: "reps h [] cs F"
inductive_cases reps_ConsE: "reps h (q # qs) cs F"

text \<open>
  \<open>heap_ext s A s' A'\<close>: from \<open>s\<close> to \<open>s'\<close>, the footprint \<open>A\<close> became \<open>A'\<close>,
  which holds allocated addresses only, old ones of \<open>A\<close> or fresh ones; every allocated
  address outside \<open>A\<close> is untouched. \<open>sim_result\<close> relates the outcome of the value
  model to the outcome of the heap program: the same panic, or a represented result.
\<close>

definition heap_ext :: "hstate \<Rightarrow> ptr set \<Rightarrow> hstate \<Rightarrow> ptr set \<Rightarrow> bool" where
  "heap_ext s A s' A' \<longleftrightarrow> hlim s \<le> hlim s' \<and> (\<forall>a \<in> A'. a < hlim s') \<and> (\<forall>a \<in> A'. a \<in> A \<or> hlim s \<le> a) \<and>
     (\<forall>a. a < hlim s \<longrightarrow> a \<notin> A \<longrightarrow> hheap s' a = hheap s a)"

definition sim_result :: "hstate \<Rightarrow> ptr \<Rightarrow> ptr set \<Rightarrow> go_panic + node \<Rightarrow> go_panic + hstate \<Rightarrow> bool" where
  "sim_result s p A r r' \<longleftrightarrow> (case r' of
      Inl e \<Rightarrow> r = Inl e
    | Inr s' \<Rightarrow> (\<exists>n' A'. r = Inr n' \<and> rep (hheap s') p n' A' \<and> heap_ext s A s' A'))"

definition ptr_res :: "(ptr \<rightharpoonup> hnode) \<Rightarrow> go_panic + node option \<Rightarrow> go_panic + ptr option \<Rightarrow> bool" where
  "ptr_res h r r' \<longleftrightarrow> (case r' of
      Inl e \<Rightarrow> r = Inl e
    | Inr None \<Rightarrow> r = Inr None
    | Inr (Some q) \<Rightarrow> (\<exists>n B. r = Inr (Some n) \<and> rep h q n B))"

section \<open>Properties of the representation\<close>

text \<open>Frame rule: a heap that agrees on the footprint represents the same node.\<close>

lemma rep_frame:
  "rep h p n F \<Longrightarrow> \<forall>a \<in> F. h' a = h a \<Longrightarrow> rep h' p n F"
  "reps h qs cs F \<Longrightarrow> \<forall>a \<in> F. h' a = h a \<Longrightarrow> reps h' qs cs F"
proof (induction rule: rep_reps.inducts)
  case (rep h p hn cs F)
  then show ?case by (auto intro!: rep_reps.rep [of h' p hn, simplified])
next
  case (reps_Nil h)
  show ?case by (rule rep_reps.reps_Nil)
next
  case (reps_Cons h q c B qs cs F)
  then show ?case by (auto intro: rep_reps.reps_Cons)
qed

lemma rep_in: "rep h p n F \<Longrightarrow> p \<in> F"
  by (auto elim: repE)

lemma reps_length: "reps h qs cs F \<Longrightarrow> length cs = length qs"
  by (induction qs arbitrary: cs F) (auto elim: reps_NilE reps_ConsE)

text \<open>The test on the heap agrees with the test on the values, child by child.\<close>

lemma rep_matches: "rep h q c B \<Longrightarrow> h_child_matches h p q = child_matches p c"
  by (auto elim!: repE simp: h_child_matches_def child_matches_def)

lemma first_index_cong:
  "list_all2 (\<lambda>x y. P x = Q y) xs ys \<Longrightarrow> first_index P xs i = first_index Q ys i"
  by (induction xs ys arbitrary: i rule: list_all2_induct) simp_all

lemma reps_matches: "reps h qs cs F \<Longrightarrow> list_all2 (\<lambda>q c. h_child_matches h p q = child_matches p c) qs cs"
  by (induction qs arbitrary: cs F) (auto elim!: reps_NilE reps_ConsE simp: rep_matches)

lemma h_matchChild_rep:
  "reps (hheap s) (h_children hn) cs F \<Longrightarrow>
     h_matchChild s hn p = matchChild_idx (Node pa pt cs w) p"
  by (simp add: h_matchChild_def matchChild_idx_def first_index_cong [OF reps_matches])

text \<open>A child of a represented slice, and what replacing it leaves represented.\<close>

lemma reps_nth:
  "reps h qs cs F \<Longrightarrow> i < length qs \<Longrightarrow>
     \<exists>B R. rep h (qs ! i) (cs ! i) B \<and> F = B \<union> R \<and> B \<inter> R = {} \<and>
       (\<forall>h' c' B'. rep h' (qs ! i) c' B' \<longrightarrow> B' \<inter> R = {} \<longrightarrow> (\<forall>a \<in> R. h' a = h a) \<longrightarrow>
          reps h' qs (cs[i := c']) (B' \<union> R))"
proof (induction qs arbitrary: cs F i)
  case Nil
  then show ?case by simp
next
  case (Cons q qs)
  from Cons.prems(1) obtain c cs' B G where cs: "cs = c # cs'" and r: "rep h q c B"
    and rs: "reps h qs cs' G" and d: "B \<inter> G = {}" and F: "F = B \<union> G"
    by (auto elim: reps_ConsE)
  show ?case
  proof (cases i)
    case 0
    have "reps h' (q # qs) (cs[i := c']) (B' \<union> G)"
      if "rep h' q c' B'" "B' \<inter> G = {}" "\<forall>a \<in> G. h' a = h a" for h' c' B'
      using that rep_frame(2) [OF rs] 0 cs by (auto intro: rep_reps.reps_Cons)
    with 0 cs r d F show ?thesis by (intro exI [of _ B] exI [of _ G]) auto
  next
    case (Suc j)
    with Cons.prems(2) have j: "j < length qs" by simp
    from Cons.IH [OF rs j] obtain B1 R1 where b1: "rep h (qs ! j) (cs' ! j) B1" "G = B1 \<union> R1"
      "B1 \<inter> R1 = {}" and upd: "\<forall>h' c' B'. rep h' (qs ! j) c' B' \<longrightarrow> B' \<inter> R1 = {} \<longrightarrow>
          (\<forall>a \<in> R1. h' a = h a) \<longrightarrow> reps h' qs (cs'[j := c']) (B' \<union> R1)" by blast
    have "reps h' (q # qs) (cs[i := c']) (B' \<union> (B \<union> R1))"
      if h': "rep h' (qs ! j) c' B'" "B' \<inter> (B \<union> R1) = {}" "\<forall>a \<in> B \<union> R1. h' a = h a" for h' c' B'
    proof -
      have "rep h' q c B" using rep_frame(1) [OF r] h'(3) by blast
      moreover have "reps h' qs (cs'[j := c']) (B' \<union> R1)" using upd h' by blast
      moreover have "B \<inter> (B' \<union> R1) = {}" using h'(2) d b1(2) by blast
      ultimately have "reps h' (q # qs) (c # cs'[j := c']) (B \<union> (B' \<union> R1))"
        by (rule rep_reps.reps_Cons)
      then show ?thesis using Suc cs by (simp add: Un_left_commute)
    qed
    with Suc cs b1 d F show ?thesis by (intro exI [of _ B1] exI [of _ "B \<union> R1"]) auto
  qed
qed

lemma reps_snoc:
  "reps h qs cs F \<Longrightarrow> rep h q c B \<Longrightarrow> B \<inter> F = {} \<Longrightarrow> reps h (qs @ [q]) (cs @ [c]) (F \<union> B)"
proof (induction qs arbitrary: cs F)
  case Nil
  have "reps h [q] [c] (B \<union> {})"
    by (rule rep_reps.reps_Cons [OF Nil.prems(2) rep_reps.reps_Nil]) simp
  with Nil.prems(1) show ?case by (auto elim: reps_NilE)
next
  case (Cons q' qs)
  from Cons.prems(1) obtain c' cs' B' G where cs: "cs = c' # cs'" and r: "rep h q' c' B'"
    and rs: "reps h qs cs' G" and d: "B' \<inter> G = {}" and F: "F = B' \<union> G" by (auto elim: reps_ConsE)
  from Cons.prems(3) F have "B \<inter> G = {}" by blast
  from Cons.IH [OF rs Cons.prems(2) this] have "reps h (qs @ [q]) (cs' @ [c]) (G \<union> B)" .
  moreover from d Cons.prems(3) F have "B' \<inter> (G \<union> B) = {}" by blast
  ultimately have "reps h (q' # qs @ [q]) (c' # cs' @ [c]) (B' \<union> (G \<union> B))"
    by (rule rep_reps.reps_Cons [OF r])
  with cs F show ?case by (simp add: Un_assoc)
qed

section \<open>The branches of insert on the heap\<close>

lemma h_insert_at_end:
  "hheap s p = Some hn \<Longrightarrow> h_insert s p pat parts (length parts) = Inr (h_store s p (hn\<lparr>h_pattern := pat\<rparr>))"
  by (simp add: h_insert.simps)

lemma h_insert_beyond: "hheap s p = Some hn \<Longrightarrow> length parts < h \<Longrightarrow> h_insert s p pat parts h = Inl IndexOutOfRange"
  by (simp add: h_insert.simps)

lemma h_insert_found:
  "hheap s p = Some hn \<Longrightarrow> h < length parts \<Longrightarrow> h_matchChild s hn (parts ! h) = Some i \<Longrightarrow>
     h_insert s p pat parts h = h_insert s (h_children hn ! i) (parts ! h) parts (Suc h)"
  by (simp add: h_insert.simps [of s p pat parts h] Let_def)

lemma h_insert_empty:
  "hheap s p = Some hn \<Longrightarrow> h < length parts \<Longrightarrow> h_matchChild s hn (parts ! h) = None \<Longrightarrow>
     parts ! h = [] \<Longrightarrow> h_insert s p pat parts h = Inl IndexOutOfRange"
  by (simp add: h_insert.simps [of s p pat parts h] Let_def)

lemma h_insert_new:
  "hheap s p = Some hn \<Longrightarrow> h < length parts \<Longrightarrow> h_matchChild s hn (parts ! h) = None \<Longrightarrow>
     parts ! h = c # r \<Longrightarrow>
     h_alloc \<lparr>h_pattern = [], h_part = parts ! h, h_children = [], h_isWild = (c = CHR '':'' \<or> c = CHR ''*'')\<rparr> s =
       (q, s1) \<Longrightarrow>
     h_insert s p pat parts h = h_insert (h_store s1 p (hn\<lparr>h_children := h_children hn @ [q]\<rparr>)) q (parts ! h) parts (Suc h)"
  by (simp add: h_insert.simps [of s p pat parts h] Let_def)

section \<open>Simulation, branch by branch\<close>

lemma sim_at_end:
  assumes hp: "hheap s p = Some hn" and rs: "reps (hheap s) (h_children hn) cs F" and p: "p \<notin> F"
    and lim: "\<forall>a \<in> insert p F. a < hlim s"
  shows "sim_result s p (insert p F) (Inr (Node pat (h_part hn) cs (h_isWild hn)))
           (Inr (h_store s p (hn\<lparr>h_pattern := pat\<rparr>)))"
proof -
  let ?s' = "h_store s p (hn\<lparr>h_pattern := pat\<rparr>)"
  have "reps (hheap ?s') (h_children hn) cs F"
    by (rule rep_frame(2) [OF rs]) (use p in \<open>auto simp: h_store_def\<close>)
  then have "rep (hheap ?s') p (Node pat (h_part hn) cs (h_isWild hn)) (insert p F)"
    using rep_reps.rep [of "hheap ?s'" p "hn\<lparr>h_pattern := pat\<rparr>" cs F] p by (simp add: h_store_def)
  moreover have "heap_ext s (insert p F) ?s' (insert p F)"
    using lim by (simp add: heap_ext_def h_store_def)
  ultimately show ?thesis by (auto simp: sim_result_def)
qed

lemma sim_found:
  assumes hp: "hheap s p = Some hn" and p: "p \<notin> F" and lim: "\<forall>a \<in> insert p F. a < hlim s"
    and b: "rep (hheap s) (h_children hn ! i) (cs ! i) B" "F = B \<union> R" "B \<inter> R = {}"
    and upd: "\<forall>h' c' B'. rep h' (h_children hn ! i) c' B' \<longrightarrow> B' \<inter> R = {} \<longrightarrow> (\<forall>a \<in> R. h' a = hheap s a) \<longrightarrow>
          reps h' (h_children hn) (cs[i := c']) (B' \<union> R)"
    and ih: "sim_result s (h_children hn ! i) B r r'"
  shows "sim_result s p (insert p F)
    (case r of Inl e \<Rightarrow> Inl e | Inr c \<Rightarrow> Inr (Node (h_pattern hn) (h_part hn) (cs[i := c]) (h_isWild hn))) r'"
proof (cases r')
  case (Inl e)
  with ih show ?thesis by (simp add: sim_result_def)
next
  case (Inr s')
  with ih obtain c' B' where r: "r = Inr c'" and c': "rep (hheap s') (h_children hn ! i) c' B'"
    and ext: "heap_ext s B s' B'" by (auto simp: sim_result_def)
  from ext have l: "hlim s \<le> hlim s'" and bl: "\<forall>a \<in> B'. a < hlim s'" and new: "\<forall>a \<in> B'. a \<in> B \<or> hlim s \<le> a"
    and fr: "\<forall>a. a < hlim s \<longrightarrow> a \<notin> B \<longrightarrow> hheap s' a = hheap s a" by (simp_all add: heap_ext_def)
  have inR: "a < hlim s \<and> a \<notin> B" if "a \<in> R" for a using that lim b(2,3) by blast
  have dis: "B' \<inter> R = {}"
  proof (rule ccontr)
    assume "B' \<inter> R \<noteq> {}"
    then obtain a where "a \<in> B'" "a \<in> R" by blast
    with new inR show False by fastforce
  qed
  have same: "\<forall>a \<in> R. hheap s' a = hheap s a" using fr inR by blast
  have rs': "reps (hheap s') (h_children hn) (cs[i := c']) (B' \<union> R)"
    by (rule upd [rule_format, OF c' dis]) (use same in blast)
  have pl: "p < hlim s" using lim by simp
  have pB: "p \<notin> B" "p \<notin> R" using p b(2) by simp_all
  have hp': "hheap s' p = Some hn" using fr pB(1) pl hp by simp
  have p': "p \<notin> B' \<union> R" using pB new pl by fastforce
  from rep_reps.rep [OF hp' rs' p'] have
    rp: "rep (hheap s') p (Node (h_pattern hn) (h_part hn) (cs[i := c']) (h_isWild hn)) (insert p (B' \<union> R))" .
  have "\<forall>a \<in> insert p (B' \<union> R). a < hlim s'" using bl inR pl l by fastforce
  moreover have "\<forall>a \<in> insert p (B' \<union> R). a \<in> insert p F \<or> hlim s \<le> a" using new b(2) by blast
  moreover have "\<forall>a. a < hlim s \<longrightarrow> a \<notin> insert p F \<longrightarrow> hheap s' a = hheap s a" using fr b(2) by blast
  ultimately have "heap_ext s (insert p F) s' (insert p (B' \<union> R))" using l by (simp add: heap_ext_def)
  with rp Inr r show ?thesis by (auto simp: sim_result_def)
qed


text \<open>The state after \<open>child = &node{...}\<close> and \<open>n.children = append(n.children, child)\<close>.\<close>

lemma new_child_state:
  assumes a: "h_alloc nd s = (q, s1)" and s2: "s2 = h_store s1 p hn'" and pl: "p < hlim s"
  shows "q = hlim s" "hlim s2 = Suc (hlim s)" "hheap s2 q = Some nd" "hheap s2 p = Some hn'"
    "\<And>a. a \<noteq> p \<Longrightarrow> a \<noteq> q \<Longrightarrow> hheap s2 a = hheap s a"
  using a pl by (auto simp: s2 h_alloc_def h_store_def)

lemma sim_new:
  assumes hp: "hheap s p = Some hn" and rs: "reps (hheap s) (h_children hn) cs F" and p: "p \<notin> F"
    and lim: "\<forall>a \<in> insert p F. a < hlim s"
    and a: "h_alloc nd s = (q, s1)" and s2: "s2 = h_store s1 p (hn\<lparr>h_children := h_children hn @ [q]\<rparr>)"
    and ih: "sim_result s2 q {q} r r'"
  shows "sim_result s p (insert p F)
    (case r of Inl e \<Rightarrow> Inl e | Inr c \<Rightarrow> Inr (Node (h_pattern hn) (h_part hn) (cs @ [c]) (h_isWild hn))) r'"
proof (cases r')
  case (Inl e)
  with ih show ?thesis by (simp add: sim_result_def)
next
  case (Inr s')
  have pl: "p < hlim s" using lim by simp
  note st = new_child_state [OF a s2 pl]
  from ih Inr obtain c' B' where r: "r = Inr c'" and c': "rep (hheap s') q c' B'"
    and ext: "heap_ext s2 {q} s' B'" by (auto simp: sim_result_def)
  from ext have l: "hlim s2 \<le> hlim s'" and bl: "\<forall>a \<in> B'. a < hlim s'"
    and new: "\<forall>a \<in> B'. a = q \<or> hlim s2 \<le> a"
    and fr: "\<forall>a. a < hlim s2 \<longrightarrow> a \<notin> {q} \<longrightarrow> hheap s' a = hheap s2 a" by (simp_all add: heap_ext_def)
  have old: "hheap s' a = hheap s a" if "a < hlim s" "a \<noteq> p" for a
    using that fr st(1,2,5) by simp
  have "reps (hheap s') (h_children hn) cs F"
    by (rule rep_frame(2) [OF rs]) (use lim p old in blast)
  moreover have "B' \<inter> F = {}" using new lim st(1,2) by fastforce
  ultimately have rs': "reps (hheap s') (h_children hn @ [q]) (cs @ [c']) (F \<union> B')"
    by (rule reps_snoc [OF _ c'])
  have hp': "hheap s' p = Some (hn\<lparr>h_children := h_children hn @ [q]\<rparr>)"
    using fr st(1,2,4) pl by simp
  have p': "p \<notin> F \<union> B'" using p new pl st(1,2) by fastforce
  have rs'': "reps (hheap s') (h_children (hn\<lparr>h_children := h_children hn @ [q]\<rparr>)) (cs @ [c']) (F \<union> B')"
    using rs' by simp
  from rep_reps.rep [OF hp' rs'' p'] have
    rp: "rep (hheap s') p (Node (h_pattern hn) (h_part hn) (cs @ [c']) (h_isWild hn)) (insert p (F \<union> B'))"
    by simp
  have "\<forall>a \<in> insert p (F \<union> B'). a < hlim s'" using bl lim l st(2) by fastforce
  moreover have "\<forall>a \<in> insert p (F \<union> B'). a \<in> insert p F \<or> hlim s \<le> a" using new st(1,2) by fastforce
  moreover have "\<forall>a. a < hlim s \<longrightarrow> a \<notin> insert p F \<longrightarrow> hheap s' a = hheap s a" using old by blast
  moreover have "hlim s \<le> hlim s'" using l st(2) by simp
  ultimately have "heap_ext s (insert p F) s' (insert p (F \<union> B'))" by (simp add: heap_ext_def)
  with rp Inr r show ?thesis by (auto simp: sim_result_def)
qed


section \<open>The pointer program refines the value model\<close>

lemma h_insert_sim:
  "rep (hheap s) p n A \<Longrightarrow> \<forall>a \<in> A. a < hlim s \<Longrightarrow>
     sim_result s p A (insert_node n pat parts h) (h_insert s p pat parts h)"
proof (induction s p pat parts h arbitrary: n A rule: h_insert.induct)
  case (1 s p pat parts h)
  from "1.prems"(1) obtain hn cs F where hp: "hheap s p = Some hn"
    and rs: "reps (hheap s) (h_children hn) cs F" and pF: "p \<notin> F"
    and n: "n = Node (h_pattern hn) (h_part hn) cs (h_isWild hn)" and A: "A = insert p F"
    by (auto elim: repE)
  have lim: "\<forall>a \<in> insert p F. a < hlim s" using "1.prems"(2) A by simp
  have mc: "h_matchChild s hn (parts ! h) = matchChild_idx n (parts ! h)"
    using h_matchChild_rep [OF rs] n by simp
  consider (at_end) "h = length parts" | (beyond) "length parts < h" | (step) "h < length parts" by arith
  then show ?case
  proof cases
    case at_end
    with sim_at_end [OF hp rs pF lim, of pat] hp n A show ?thesis by (simp add: h_insert_at_end)
  next
    case beyond
    with hp show ?thesis by (simp add: h_insert_beyond insert_beyond sim_result_def)
  next
    case step
    show ?thesis
    proof (cases "matchChild_idx n (parts ! h)")
      case (Some i)
      from matchChild_idx_SomeD [OF Some] n reps_length [OF rs] have iq: "i < length (h_children hn)" by simp
      from reps_nth [OF rs iq] obtain B R where b: "rep (hheap s) (h_children hn ! i) (cs ! i) B"
        "F = B \<union> R" "B \<inter> R = {}"
        and upd: "\<forall>h' c' B'. rep h' (h_children hn ! i) c' B' \<longrightarrow> B' \<inter> R = {} \<longrightarrow>
          (\<forall>a \<in> R. h' a = hheap s a) \<longrightarrow> reps h' (h_children hn) (cs[i := c']) (B' \<union> R)" by blast
      have bl: "\<forall>a \<in> B. a < hlim s" using lim b(2) by blast
      have ih: "sim_result s (h_children hn ! i) B (insert_node (cs ! i) (parts ! h) parts (Suc h))
          (h_insert s (h_children hn ! i) (parts ! h) parts (Suc h))"
        using "1.IH"(2) [OF hp _ _ refl, of i] step Some mc b(1) bl by simp
      from sim_found [OF hp pF lim b upd ih] step Some mc hp n A show ?thesis
        by (simp add: h_insert_found insert_found cong: sum.case_cong)
    next
      case None
      show ?thesis
      proof (cases "parts ! h")
        case Nil
        with step None mc hp show ?thesis
          by (simp add: h_insert_empty insert_new new_node_def sim_result_def)
      next
        case (Cons c r)
        define nd where "nd = \<lparr>h_pattern = [], h_part = parts ! h, h_children = [],
          h_isWild = (c = CHR '':'' \<or> c = CHR ''*'')\<rparr>"
        obtain q s1 where a: "h_alloc nd s = (q, s1)" by fastforce
        define s2 where "s2 = h_store s1 p (hn\<lparr>h_children := h_children hn @ [q]\<rparr>)"
        have pl: "p < hlim s" using lim by simp
        note st = new_child_state [OF a s2_def pl]
        have "rep (hheap s2) q (Node (h_pattern nd) (h_part nd) [] (h_isWild nd)) (insert q {})"
          by (rule rep_reps.rep [of "hheap s2" q nd "[]" "{}", OF st(3)]) (simp_all add: nd_def rep_reps.reps_Nil)
        then have child: "rep (hheap s2) q (Node [] (parts ! h) [] (c = CHR '':'' \<or> c = CHR ''*'')) {q}"
          by (simp add: nd_def)
        have ih: "sim_result s2 q {q} (insert_node (Node [] (parts ! h) [] (c = CHR '':'' \<or> c = CHR ''*''))
            (parts ! h) parts (Suc h)) (h_insert s2 q (parts ! h) parts (Suc h))"
          using "1.IH"(1) [OF hp _ _ refl _ Cons refl a [unfolded nd_def, symmetric] s2_def [unfolded nd_def]]
            step None mc child st(1,2) by simp
        from sim_new [OF hp rs pF lim a s2_def ih] step None mc hp n A Cons show ?thesis
          by (simp add: h_insert_new [OF hp step _ Cons a [unfolded nd_def]] insert_new new_node_def s2_def
            cong: sum.case_cong)
      qed
    qed
  qed
qed


lemma rep_h_root: "rep (hheap h_root) 0 new_root {0}"
  using rep_reps.rep [of "hheap h_root" 0 "\<lparr>h_pattern = [], h_part = [], h_children = [], h_isWild = False\<rparr>"
      "[]" "{}"] rep_reps.reps_Nil
  by (simp add: h_root_def new_root_def)

section \<open>search on the heap\<close>

lemma list_all2_filter:
  "list_all2 R xs ys \<Longrightarrow> (\<And>x y. R x y \<Longrightarrow> P x = Q y) \<Longrightarrow> list_all2 R (filter P xs) (filter Q ys)"
  by (induction xs ys rule: list_all2_induct) auto

lemma reps_all2: "reps h qs cs F \<Longrightarrow> list_all2 (\<lambda>q c. \<exists>B. rep h q c B) qs cs"
  by (induction qs arbitrary: cs F) (auto elim!: reps_NilE reps_ConsE)

lemma h_matchChildren_rep:
  "reps (hheap s) (h_children hn) cs F \<Longrightarrow>
     list_all2 (\<lambda>q c. \<exists>B. rep (hheap s) q c B) (h_matchChildren s hn p) (matchChildren (Node pa pt cs w) p)"
  unfolding h_matchChildren_def matchChildren_def
  by (auto intro: list_all2_filter [OF reps_all2] simp: rep_matches)

lemma h_search_sim:
  "rep (hheap s) p n F \<Longrightarrow> ptr_res (hheap s) (search n parts h) (h_search s p parts h)"
  "list_all2 (\<lambda>q c. \<exists>B. rep (hheap s) q c B) qs cs \<Longrightarrow>
     ptr_res (hheap s) (search_children cs parts h) (h_search_children s qs parts h)"
proof (induction s p parts h and s qs parts h arbitrary: n F and cs rule: h_search_h_search_children.induct)
  case (1 s p parts h)
  from "1.prems" obtain hn cs G where hp: "hheap s p = Some hn"
    and rs: "reps (hheap s) (h_children hn) cs G"
    and n: "n = Node (h_pattern hn) (h_part hn) cs (h_isWild hn)" by (auto elim: repE)
  show ?case
  proof (cases "length parts = h \<or> HasPrefix (h_part hn) ''*''")
    case True
    with hp "1.prems" show ?thesis unfolding n
      by (auto simp: h_search.simps [of s p parts h] ptr_res_def
          search.simps [of "Node (h_pattern hn) (h_part hn) cs (h_isWild hn)" parts h])
  next
    case False
    show ?thesis
    proof (cases "length parts < h")
      case True
      with False hp show ?thesis unfolding n
        by (simp add: h_search.simps [of s p parts h] ptr_res_def
            search.simps [of "Node (h_pattern hn) (h_part hn) cs (h_isWild hn)" parts h])
    next
      case lt: False
      from "1.IH" [OF hp False lt h_matchChildren_rep [OF rs]] False lt hp show ?thesis unfolding n
        by (simp add: h_search.simps [of s p parts h]
            search.simps [of "Node (h_pattern hn) (h_part hn) cs (h_isWild hn)" parts h])
    qed
  qed
next
  case (2 s parts h)
  then show ?case by (simp add: ptr_res_def)
next
  case (3 s q qs parts h)
  from "3.prems" obtain c cs' B where cs: "cs = c # cs'" and r: "rep (hheap s) q c B"
    and rest: "list_all2 (\<lambda>q c. \<exists>B. rep (hheap s) q c B) qs cs'" by (auto simp: list_all2_Cons1)
  have ih1: "ptr_res (hheap s) (search c parts h) (h_search s q parts h)" by (rule "3.IH"(1) [OF r])
  show ?case
  proof (cases "h_search s q parts h")
    case (Inl e)
    with ih1 cs show ?thesis by (simp add: ptr_res_def)
  next
    case (Inr res)
    show ?thesis
    proof (cases res)
      case None
      with ih1 Inr cs "3.IH"(2) [OF Inr None rest] show ?thesis by (simp add: ptr_res_def)
    next
      case (Some x)
      with ih1 Inr cs show ?thesis by (auto simp: ptr_res_def)
    qed
  qed
qed

lemma h_register_sim:
  "rep (hheap s) p t A \<Longrightarrow> \<forall>a \<in> A. a < hlim s \<Longrightarrow>
     (case h_register s p pats of
        Inl e \<Rightarrow> register t pats = Inl e
      | Inr s' \<Rightarrow> (\<exists>t' A'. register t pats = Inr t' \<and> rep (hheap s') p t' A' \<and> (\<forall>a \<in> A'. a < hlim s')))"
proof (induction pats arbitrary: s t A)
  case Nil
  then show ?case by auto
next
  case (Cons pat pats)
  have sim: "sim_result s p A (insert_node t pat (parse_parts pat) 0) (h_insert s p pat (parse_parts pat) 0)"
    by (rule h_insert_sim [OF Cons.prems])
  show ?case
  proof (cases "h_insert s p pat (parse_parts pat) 0")
    case (Inl e)
    with sim show ?thesis by (simp add: sim_result_def trie_insert_def)
  next
    case (Inr s1)
    with sim obtain t1 A1 where t1: "insert_node t pat (parse_parts pat) 0 = Inr t1"
      "rep (hheap s1) p t1 A1" "heap_ext s A s1 A1" by (auto simp: sim_result_def)
    from t1(3) have "\<forall>a \<in> A1. a < hlim s1" by (simp add: heap_ext_def)
    from Cons.IH [OF t1(2) this] Inr t1(1) show ?thesis by (simp add: trie_insert_def cong: sum.case_cong)
  qed
qed

section \<open>Claims about the pointer program\<close>

text \<open>
  C19. Refinement of the pointer program (\<open>trie.go\<close> lines 31--50 as written, with the
  in-place mutation through \<open>n.children\<close> and \<open>child\<close>): from any pointer that
  represents a trie on a heap whose footprint is allocated, \<open>insert\<close> panics exactly when
  the value model panics, with the same panic; otherwise the pointer still represents the
  value model's result, and every allocated node outside the old footprint is untouched.
\<close>

theorem h_insert_refines:
  "rep (hheap s) p n A \<Longrightarrow> \<forall>a \<in> A. a < hlim s \<Longrightarrow>
     (case h_insert s p pat parts h of
        Inl e \<Rightarrow> insert_node n pat parts h = Inl e
      | Inr s' \<Rightarrow> (\<exists>n' A'. insert_node n pat parts h = Inr n' \<and> rep (hheap s') p n' A' \<and>
           (\<forall>a. a < hlim s \<longrightarrow> a \<notin> A \<longrightarrow> hheap s' a = hheap s a)))"
  using h_insert_sim [of s p n A pat parts h]
  by (auto simp: sim_result_def heap_ext_def split: sum.splits)

theorem h_insert_refines_witness:
  "(case h_insert h_root 0 ''/p/:id'' [''p'', '':id''] 0 of
      Inl e \<Rightarrow> insert_node new_root ''/p/:id'' [''p'', '':id''] 0 = Inl e
    | Inr s' \<Rightarrow> (\<exists>n' A'. insert_node new_root ''/p/:id'' [''p'', '':id''] 0 = Inr n' \<and>
         rep (hheap s') 0 n' A' \<and>
         (\<forall>a. a < hlim h_root \<longrightarrow> a \<notin> {0} \<longrightarrow> hheap s' a = hheap h_root a))) \<and>
   (\<exists>s'. h_insert h_root 0 ''/p/:id'' [''p'', '':id''] 0 = Inr s')"
proof -
  have "\<forall>a \<in> {0::nat}. a < hlim h_root" by (simp add: h_root_def)
  from h_insert_refines [OF rep_h_root this, of "''/p/:id''" "[''p'', '':id'']" 0]
  have r: "case h_insert h_root 0 ''/p/:id'' [''p'', '':id''] 0 of
      Inl e \<Rightarrow> insert_node new_root ''/p/:id'' [''p'', '':id''] 0 = Inl e
    | Inr s' \<Rightarrow> (\<exists>n' A'. insert_node new_root ''/p/:id'' [''p'', '':id''] 0 = Inr n' \<and>
         rep (hheap s') 0 n' A' \<and>
         (\<forall>a. a < hlim h_root \<longrightarrow> a \<notin> {0} \<longrightarrow> hheap s' a = hheap h_root a))" .
  have "\<exists>s'. h_insert h_root 0 ''/p/:id'' [''p'', '':id''] 0 = Inr s'"
    by (simp add: h_insert.simps h_root_def h_matchChild_def h_child_matches_def h_alloc_def h_store_def Let_def)
  with r show ?thesis by blast
qed


text \<open>
  C20. Refinement of the pointer search (lines 52--70): from a pointer that represents a
  trie, \<open>search\<close> panics exactly when the value model panics, returns \<open>nil\<close> exactly
  when it returns nothing, and otherwise returns a pointer that represents the node the value
  model returns.
\<close>

theorem h_search_refines:
  "rep (hheap s) p n F \<Longrightarrow>
     (case h_search s p parts h of
        Inl e \<Rightarrow> search n parts h = Inl e
      | Inr None \<Rightarrow> search n parts h = Inr None
      | Inr (Some q) \<Rightarrow> (\<exists>r B. search n parts h = Inr (Some r) \<and> rep (hheap s) q r B))"
  using h_search_sim(1) [of s p n F parts h] by (simp add: ptr_res_def)

theorem h_search_refines_witness:
  "(\<exists>A. rep (hheap \<lparr>hheap = [0 \<mapsto> \<lparr>h_pattern = [], h_part = [], h_children = [1], h_isWild = False\<rparr>,
      1 \<mapsto> \<lparr>h_pattern = [], h_part = ''p'', h_children = [2], h_isWild = False\<rparr>,
      2 \<mapsto> \<lparr>h_pattern = '':id'', h_part = '':id'', h_children = [], h_isWild = True\<rparr>], hlim = 3\<rparr>) 0 (Node [] [] [Node [] ''p'' [Node '':id'' '':id'' [] True] False] False) A) \<and>
   h_search \<lparr>hheap = [0 \<mapsto> \<lparr>h_pattern = [], h_part = [], h_children = [1], h_isWild = False\<rparr>,
      1 \<mapsto> \<lparr>h_pattern = [], h_part = ''p'', h_children = [2], h_isWild = False\<rparr>,
      2 \<mapsto> \<lparr>h_pattern = '':id'', h_part = '':id'', h_children = [], h_isWild = True\<rparr>], hlim = 3\<rparr> 0 [''p'', ''42''] 0 = Inr (Some 2) \<and>
   (\<exists>r B. search (Node [] [] [Node [] ''p'' [Node '':id'' '':id'' [] True] False] False) [''p'', ''42''] 0 = Inr (Some r) \<and> rep (hheap \<lparr>hheap = [0 \<mapsto> \<lparr>h_pattern = [], h_part = [], h_children = [1], h_isWild = False\<rparr>,
      1 \<mapsto> \<lparr>h_pattern = [], h_part = ''p'', h_children = [2], h_isWild = False\<rparr>,
      2 \<mapsto> \<lparr>h_pattern = '':id'', h_part = '':id'', h_children = [], h_isWild = True\<rparr>], hlim = 3\<rparr>) 2 r B)"
proof -
  have ins: "h_insert h_root 0 ''/p/:id'' [''p'', '':id''] 0 = Inr \<lparr>hheap = [0 \<mapsto> \<lparr>h_pattern = [], h_part = [], h_children = [1], h_isWild = False\<rparr>,
      1 \<mapsto> \<lparr>h_pattern = [], h_part = ''p'', h_children = [2], h_isWild = False\<rparr>,
      2 \<mapsto> \<lparr>h_pattern = '':id'', h_part = '':id'', h_children = [], h_isWild = True\<rparr>], hlim = 3\<rparr>"
    by (simp add: h_insert.simps h_root_def h_matchChild_def h_child_matches_def h_alloc_def h_store_def
        Let_def numeral_2_eq_2 numeral_3_eq_3)
  have val: "insert_node new_root ''/p/:id'' [''p'', '':id''] 0 = Inr (Node [] [] [Node [] ''p'' [Node '':id'' '':id'' [] True] False] False)"
    by (simp add: new_root_def insert_node.simps go_eval)
  have "\<forall>a \<in> {0::nat}. a < hlim h_root" by (simp add: h_root_def)
  from h_insert_sim [OF rep_h_root this, of "''/p/:id''" "[''p'', '':id'']" 0] ins val
  obtain A where rp: "rep (hheap \<lparr>hheap = [0 \<mapsto> \<lparr>h_pattern = [], h_part = [], h_children = [1], h_isWild = False\<rparr>,
      1 \<mapsto> \<lparr>h_pattern = [], h_part = ''p'', h_children = [2], h_isWild = False\<rparr>,
      2 \<mapsto> \<lparr>h_pattern = '':id'', h_part = '':id'', h_children = [], h_isWild = True\<rparr>], hlim = 3\<rparr>) 0 (Node [] [] [Node [] ''p'' [Node '':id'' '':id'' [] True] False] False) A" by (auto simp: sim_result_def)
  have se: "h_search \<lparr>hheap = [0 \<mapsto> \<lparr>h_pattern = [], h_part = [], h_children = [1], h_isWild = False\<rparr>,
      1 \<mapsto> \<lparr>h_pattern = [], h_part = ''p'', h_children = [2], h_isWild = False\<rparr>,
      2 \<mapsto> \<lparr>h_pattern = '':id'', h_part = '':id'', h_children = [], h_isWild = True\<rparr>], hlim = 3\<rparr> 0 [''p'', ''42''] 0 = Inr (Some 2)"
    by (simp add: h_search.simps h_matchChildren_def h_child_matches_def go_eval)
  from rp se h_search_refines [OF rp, of "[''p'', ''42'']" 0] show ?thesis by auto
qed

text \<open>
  C21. The Go program end to end (spec 8, first item): on the pointer trie, a registration
  phase of well-formed patterns from the router's root never panics, and afterwards the
  pointer \<open>search\<close> of every registered pattern returns a non-nil node. This composes the
  refinement of \<open>insert\<close> and \<open>search\<close> with the value-level results.
\<close>

theorem h_registration_finds_all:
  "\<forall>pat \<in> set pats. good_pattern pat \<Longrightarrow>
     \<exists>s'. h_register h_root 0 pats = Inr s' \<and>
       (\<forall>pat \<in> set pats. \<exists>q. h_search s' 0 (parse_parts pat) 0 = Inr (Some q))"
proof -
  assume g: "\<forall>pat \<in> set pats. good_pattern pat"
  from register_good [OF g star_ok_new_root wf_trie_new_root] obtain t where
    t: "register new_root pats = Inr t" and r: "\<forall>pat \<in> set pats. \<exists>r. reach t (parse_parts pat) 0 r"
    using instance_of_refl by blast
  have "\<forall>a \<in> {0::nat}. a < hlim h_root" by (simp add: h_root_def)
  from h_register_sim [OF rep_h_root this, of pats] t obtain s' A' where
    s': "h_register h_root 0 pats = Inr s'" and rp: "rep (hheap s') 0 t A'"
    by (auto split: sum.splits)
  have "\<exists>q. h_search s' 0 (parse_parts pat) 0 = Inr (Some q)" if "pat \<in> set pats" for pat
  proof -
    from r that obtain r0 where "reach t (parse_parts pat) 0 r0" by blast
    from reach_search [OF this] obtain r' where v: "search t (parse_parts pat) 0 = Inr (Some r')" by auto
    from h_search_sim(1) [OF rp, of "parse_parts pat" 0] v show ?thesis
      by (auto simp: ptr_res_def split: sum.splits option.splits)
  qed
  with s' show ?thesis by blast
qed

theorem h_registration_finds_all_witness:
  "\<exists>s'. h_register h_root 0 [''/p/:id'', ''/static/*f''] = Inr s' \<and>
     (\<forall>pat \<in> set [''/p/:id'', ''/static/*f'']. \<exists>q. h_search s' 0 (parse_parts pat) 0 = Inr (Some q))"
proof -
  have "\<forall>pat \<in> set [''/p/:id'', ''/static/*f'']. good_pattern pat"
    by (simp add: good_pattern_def parse_parts_def go_eval)
  from h_registration_finds_all [OF this] show ?thesis .
qed

end
