(* ===== verification/Experiment_Trie.thy ===== *)
theory Experiment_Trie
  imports Go_Prelude
begin

text \<open>
  The prototype \<open>src/experiment/mytrie.go\<close>: nodes with a value and a map
  \<open>next map[string]*node\<close> of children, a global \<open>rootNode\<close>, and the loops
  \<open>insert\<close> and \<open>match\<close> over the pieces of \<open>strings.Split(path, "/")\<close>.
  Nodes are shared through pointers and mutated in place, so the state is an explicit heap:
  addresses are \<open>nat\<close>, \<open>lim\<close> is the next free address, a pointer is
  \<open>ptr option\<close> (\<open>None\<close> is \<open>nil\<close>) and a map field is \<open>None\<close> while it is a
  Go nil map. No node literal of the file initialises \<open>next\<close>, so every map is nil: a
  read from it finds nothing, a write to it panics.
  The fields \<open>value\<close> and \<open>next\<close> are Isar keywords and are called
  \<open>node_value\<close> and \<open>node_next\<close> here.
  The lemmas show that on every state whose maps are all nil, in particular the initial
  one, \<open>insert\<close> panics on the nil map and \<open>match\<close> on the nil \<open>nextNode\<close>, so
  that the initial state is the only reachable one.
\<close>

section \<open>State\<close>

type_synonym ptr = nat

record enode =
  node_value :: string
  node_next :: "(string \<rightharpoonup> ptr) option"

record estate =
  heap :: "ptr \<rightharpoonup> enode"
  lim :: nat
  rootNode :: "ptr option"

text \<open>\<open>var rootNode = &node{value: "/"}\<close>: the package's initial state.\<close>

definition init_estate :: estate where
  "init_estate = \<lparr>heap = [0 \<mapsto> \<lparr>node_value = ''/'', node_next = None\<rparr>], lim = 1, rootNode = Some 0\<rparr>"

section \<open>Go primitives on the heap\<close>

text \<open>Reading \<open>*p\<close>: a nil pointer panics.\<close>

definition deref :: "estate \<Rightarrow> ptr option \<Rightarrow> go_panic + enode" where
  "deref s p = (case p of
      None \<Rightarrow> Inl NilDereference
    | Some a \<Rightarrow> (case heap s a of None \<Rightarrow> Inl NilDereference | Some nd \<Rightarrow> Inr nd))"

text \<open>Writing \<open>*p\<close>.\<close>

definition store :: "estate \<Rightarrow> ptr option \<Rightarrow> enode \<Rightarrow> go_panic + estate" where
  "store s p nd = (case p of
      None \<Rightarrow> Inl NilDereference
    | Some a \<Rightarrow> Inr (s\<lparr>heap := (heap s)(a \<mapsto> nd)\<rparr>))"

text \<open>\<open>&node{...}\<close>: a fresh address.\<close>

definition alloc :: "enode \<Rightarrow> estate \<Rightarrow> ptr \<times> estate" where
  "alloc nd s = (lim s, s\<lparr>heap := (heap s)(lim s \<mapsto> nd), lim := Suc (lim s)\<rparr>)"

text \<open>\<open>m[k]\<close> (with \<open>ok\<close>): a nil map holds no key.\<close>

definition map_get :: "(string \<rightharpoonup> ptr) option \<Rightarrow> string \<Rightarrow> ptr option" where
  "map_get m k = (case m of None \<Rightarrow> None | Some f \<Rightarrow> f k)"

text \<open>\<open>m[k] = v\<close>: assignment to an entry of a nil map panics.\<close>

definition map_put :: "(string \<rightharpoonup> ptr) option \<Rightarrow> string \<Rightarrow> ptr \<Rightarrow> go_panic + (string \<rightharpoonup> ptr) option" where
  "map_put m k v = (case m of None \<Rightarrow> Inl NilMapWrite | Some f \<Rightarrow> Inr (Some (f(k \<mapsto> v))))"

section \<open>insert\<close>

text \<open>
  One iteration of the loop of lines 18--31 for the piece \<open>v\<close> at \<open>p\<close>. When the key is
  missing, \<open>v\<close> is replaced by \<open>":"\<close> for a parameter before the new node is stored and
  before \<open>p = p.next[v]\<close> reads it back. In \<open>p.next[v] = &node{value: v}\<close> Go
  evaluates \<open>p.next\<close> and the composite literal first and performs the map assignment
  last.
\<close>

fun ex_insert_loop :: "string list \<Rightarrow> ptr option \<Rightarrow> estate \<Rightarrow> go_panic + estate" where
  "ex_insert_loop [] p s = Inr s"
| "ex_insert_loop (v # vs) p s =
    (case deref s p of
       Inl e \<Rightarrow> Inl e
     | Inr pn \<Rightarrow>
        (case map_get (node_next pn) v of
           Some q \<Rightarrow> ex_insert_loop vs (Some q) s
         | None \<Rightarrow>
            (let v' = (if HasPrefix v '':'' then '':'' else v);
                 (q, s1) = alloc \<lparr>node_value = v', node_next = None\<rparr> s
             in case map_put (node_next pn) v' q of
                  Inl e \<Rightarrow> Inl e
                | Inr m' \<Rightarrow>
                   (case store s1 p (pn\<lparr>node_next := m'\<rparr>) of
                      Inl e \<Rightarrow> Inl e
                    | Inr s2 \<Rightarrow>
                       (case deref s2 p of
                          Inl e \<Rightarrow> Inl e
                        | Inr pn2 \<Rightarrow> ex_insert_loop vs (map_get (node_next pn2) v') s2)))))"

definition ex_insert :: "string \<Rightarrow> estate \<Rightarrow> go_panic + estate" where
  "ex_insert path s = ex_insert_loop (go_split path) (rootNode s) s"

section \<open>match\<close>

text \<open>
  The loop of lines 38--47. On a missing key \<open>nextNode\<close> is the zero value \<open>nil\<close>, and
  \<open>nextNode.value\<close> is read before \<open>return nil\<close>.
\<close>

fun ex_match_loop :: "string list \<Rightarrow> ptr option \<Rightarrow> estate \<Rightarrow> go_panic + ptr option" where
  "ex_match_loop [] p s = Inr p"
| "ex_match_loop (part # ps) p s =
    (case deref s p of
       Inl e \<Rightarrow> Inl e
     | Inr pn \<Rightarrow>
        (case map_get (node_next pn) part of
           None \<Rightarrow> (case deref s None of Inl e \<Rightarrow> Inl e | Inr nextNode \<Rightarrow> Inr None)
         | Some q \<Rightarrow> ex_match_loop ps (Some q) s))"

definition ex_match :: "string \<Rightarrow> estate \<Rightarrow> go_panic + ptr option" where
  "ex_match path s = ex_match_loop (go_split path) (rootNode s) s"

text \<open>Every node of the heap still has its nil map, and the root points into the heap.\<close>

definition all_nil :: "estate \<Rightarrow> bool" where
  "all_nil s \<longleftrightarrow> (\<forall>a nd. heap s a = Some nd \<longrightarrow> node_next nd = None)"

definition root_ok :: "estate \<Rightarrow> bool" where
  "root_ok s \<longleftrightarrow> (\<exists>a nd. rootNode s = Some a \<and> heap s a = Some nd)"

section \<open>Reachable states\<close>

text \<open>
  The package's state evolves only by calls of \<open>insert\<close> that return; \<open>match\<close> reads.
\<close>

inductive ex_reach :: "estate \<Rightarrow> bool" where
  init: "ex_reach init_estate"
| step: "ex_reach s \<Longrightarrow> ex_insert path s = Inr s' \<Longrightarrow> ex_reach s'"

section \<open>Properties\<close>

lemma go_split_Cons: "\<exists>v vs. go_split path = v # vs"
  by (cases "go_split path") (simp_all add: go_split_def)

lemma deref_nil_map:
  "all_nil s \<Longrightarrow> heap s a = Some nd \<Longrightarrow> deref s (Some a) = Inr nd \<and> node_next nd = None"
  by (simp add: deref_def all_nil_def)

lemma ex_insert_loop_nil:
  assumes "all_nil s" "heap s a = Some nd"
  shows "ex_insert_loop (v # vs) (Some a) s = Inl NilMapWrite"
  using deref_nil_map [OF assms]
  by (simp add: map_get_def map_put_def alloc_def Let_def split: prod.splits)

lemma ex_match_loop_nil:
  assumes "all_nil s" "heap s a = Some nd"
  shows "ex_match_loop (part # ps) (Some a) s = Inl NilDereference"
  using deref_nil_map [OF assms] by (simp add: map_get_def deref_def)

lemma init_all_nil: "all_nil init_estate" and init_root_ok: "root_ok init_estate"
  by (auto simp: all_nil_def root_ok_def init_estate_def)

lemma ex_insert_panics:
  assumes "all_nil s" "root_ok s"
  shows "ex_insert path s = Inl NilMapWrite"
proof -
  obtain v vs where split: "go_split path = v # vs" using go_split_Cons by blast
  obtain a nd where r: "rootNode s = Some a" "heap s a = Some nd"
    using assms(2) by (auto simp: root_ok_def)
  have "ex_insert path s = ex_insert_loop (v # vs) (Some a) s"
    by (simp add: ex_insert_def split r(1) del: ex_insert_loop.simps)
  also have "\<dots> = Inl NilMapWrite" by (rule ex_insert_loop_nil [OF assms(1) r(2)])
  finally show ?thesis .
qed

lemma ex_reach_init: "ex_reach s \<Longrightarrow> s = init_estate"
proof (induction rule: ex_reach.induct)
  case init
  show ?case ..
next
  case (step s path s')
  with ex_insert_panics [OF init_all_nil init_root_ok, of path] show ?case by simp
qed

text \<open>
  C11. The prototype cannot register a route: from the package's initial state every call
  of \<open>insert\<close> panics with an assignment to an entry in a nil map, whatever the path,
  because \<open>strings.Split\<close> always yields a piece and \<open>rootNode.next\<close> is nil.
\<close>

theorem ex_insert_always_panics: "ex_insert path init_estate = Inl NilMapWrite"
  by (rule ex_insert_panics [OF init_all_nil init_root_ok])

text \<open>
  C12. The only state of the package that calls of \<open>insert\<close> can reach is its initial
  one: no insertion ever returns.
\<close>

theorem ex_reach_only_init: "ex_reach s \<longleftrightarrow> s = init_estate"
  using ex_reach_init ex_reach.init by blast

text \<open>
  C13. In every reachable state, \<open>match\<close> panics with a nil pointer dereference on every
  path: the first lookup misses and the code reads \<open>nextNode.value\<close> of the nil
  \<open>nextNode\<close> before returning \<open>nil\<close> (the unguarded access spec section 7 describes).
\<close>

theorem ex_match_always_panics: "ex_reach s \<Longrightarrow> ex_match path s = Inl NilDereference"
proof -
  assume "ex_reach s"
  then have s: "s = init_estate" by (rule ex_reach_init)
  obtain v vs where split: "go_split path = v # vs" using go_split_Cons by blast
  have h: "heap init_estate 0 = Some \<lparr>node_value = ''/'', node_next = None\<rparr>"
    and r: "rootNode init_estate = Some 0" by (simp_all add: init_estate_def)
  have "ex_match path s = ex_match_loop (v # vs) (Some 0) init_estate"
    by (simp add: s ex_match_def split r del: ex_match_loop.simps)
  also have "\<dots> = Inl NilDereference" by (rule ex_match_loop_nil [OF init_all_nil h])
  finally show ?thesis .
qed

theorem ex_match_always_panics_witness: "ex_match ''/p'' init_estate = Inl NilDereference"
  by (rule ex_match_always_panics [OF ex_reach.init])

end
