(* ===== verification/Spec2Isabelle.thy ===== *)
theory Spec2Isabelle
  imports Trie_Positions Trie_Heap Experiment_Trie
begin

text \<open>
  \<^bold>\<open>A verification library for the route trie of pojiang20/Gee.\<close>

  \<^emph>\<open>The program.\<close> \<open>src/gee/trie.go\<close> is the route trie of the Gee web framework:
  a tree of \<open>node\<close>s, one per URL path segment, with \<open>insert\<close> registering a route
  pattern split into segments and \<open>search\<close> resolving a request path by depth-first
  search with backtracking. \<open>matchChild\<close> (first child whose segment equals the
  requested one or that is wild) drives insertion; \<open>matchChildren\<close> (all such children)
  drives the search. \<open>src/experiment/mytrie.go\<close> is an earlier prototype with a global
  \<open>rootNode\<close> and string-keyed maps of children. The router that owns one trie per HTTP
  method and splits patterns into segments is not in \<open>src/\<close>; where the development needs
  it, it follows \<open>spec.md\<close>.

  \<^emph>\<open>Theories.\<close>
  \<^item> \<open>Go_Prelude\<close>: Go runtime panics (\<open>go_panic\<close>), \<open>strings.HasPrefix\<close>,
    \<open>strings.Split\<close> on \<open>"/"\<close>, the first-match scan \<open>first_index\<close> and \<open>first_of\<close>; the collection \<open>go_eval\<close> of
    equations that evaluate the models on concrete inputs.
  \<^item> \<open>Trie_Node\<close> (\<open>trie.go\<close> lines 5--50): the \<open>node\<close> struct as a datatype with the
    source's fields, \<open>matchChild\<close> with the position it returns (\<open>matchChild_idx\<close>),
    \<open>matchChildren\<close>, node creation \<open>new_node\<close> (which panics on an empty segment, as
    \<open>part[0]\<close> does) and \<open>insert\<close> as \<open>insert_node\<close>, returning
    \<open>go_panic + node\<close>. Nodes are owned by exactly one parent's slice, so the pointer
    tree is modelled by value and the in-place mutation of the matched child is a list update
    at its position (\<open>Trie_Heap\<close> proves this against the pointer semantics). Lemmas: one per branch of \<open>insert\<close> and an elimination rule
    \<open>insert_InrE\<close>; the panic cases, totality, preservation of \<open>wf_trie\<close>,
    idempotence, growth in place (\<open>grows_by\<close>, parametrised by how a node's pattern may
    change), and the pattern stored at the end of the path \<open>descend\<close> that
    \<open>insert\<close> follows.
  \<^item> \<open>Trie_Search\<close> (\<open>trie.go\<close> lines 52--70): \<open>search\<close> and its loop over the
    candidates, \<open>search_children\<close>, as mutual recursion; the specification \<open>reach\<close>
    (an inductive relation: which registered nodes a path leads to) and the reference
    enumeration \<open>all_matches\<close>, written over each node's \<open>children\<close> in slice order
    (not over \<open>matchChildren\<close>). Lemmas: the search returns the first element of
    \<open>all_matches\<close> and never panics from a level within the path; \<open>all_matches\<close>
    lists exactly the \<open>reach\<close> matches; a returned node carries a pattern and belongs to
    the trie; without catch-alls a path longer than the trie is deep finds nothing; a
    catch-all node that is returned stays a match of every extension of the path.
  \<^item> \<open>Route_Trie\<close> (from \<open>spec.md\<close>): the router's root \<open>new_root\<close>, the split
    \<open>parse_parts\<close> (drop the empty first piece), \<open>trie_insert\<close>, \<open>trie_search\<close>,
    a registration phase \<open>register\<close> and its reachable tries \<open>built\<close>. Lemmas: an
    insertion makes its segments reach a registered node and keeps catch-all nodes
    registered (\<open>insert_node_reach\<close>), later insertions keep every registered route
    (\<open>reach_extends\<close>), hence a registration of well-formed patterns never panics and
    finds every pattern it registered; the reachable tries are well formed; registration is
    append-only. The states reached by well-formed registrations (\<open>good_built\<close>) can
    always take one more registration, which serves its pattern (progress); a served path
    stays served through later registrations of patterns with non-empty segments.
  \<^item> \<open>Trie_Positions\<close>: the trie as a map from positions (lists of child indices) to
    patterns, \<open>pattern_at\<close>, and the position \<open>descend_path\<close> that the walk of
    \<open>insert\<close> reaches by \<open>matchChild\<close>. Lemmas: \<open>insert\<close> is a point update of
    this map at that position (\<open>insert_node_update\<close>); positions chosen by
    \<open>matchChild\<close> survive growth (\<open>descend_path_grows\<close>); after a registration phase
    the positions carrying a pattern are exactly the ends of the registered walks; a node
    the search returns lies no deeper than the path is long, and above its end only if it
    is a catch-all (\<open>search_result_depth\<close>).
  \<^item> \<open>Trie_Heap\<close> (\<open>trie.go\<close> with its pointers): the same code on an explicit heap of
    \<open>hnode\<close>s, \<open>children\<close> a slice of addresses, \<open>insert\<close> appending a fresh child's
    address to \<open>n.children\<close> before recursing into it (\<open>h_insert\<close>), and \<open>search\<close>
    with its loop (\<open>h_search\<close>, \<open>h_search_children\<close>). \<open>rep h p n F\<close> relates a
    pointer to a value-level node with its footprint \<open>F\<close> (children's footprints disjoint),
    with a frame rule. Lemmas: \<open>h_insert\<close> refines \<open>insert_node\<close> branch by branch,
    with the same panics and nothing outside the footprint touched; \<open>h_search\<close> refines
    \<open>search\<close>; a registration phase on the heap refines \<open>register\<close>. This justifies
    the by-value model of the other theories: the Go program's aliasing (the child stored in
    the slice is the child mutated afterwards) is exactly the value update.
  \<^item> \<open>Experiment_Trie\<close> (\<open>mytrie.go\<close>): an explicit heap \<open>ptr \<rightharpoonup> enode\<close> with
    an allocation limit, the global \<open>rootNode\<close>, nil pointers and nil maps; the loops of
    \<open>insert\<close> and \<open>match\<close> as \<open>ex_insert_loop\<close> and \<open>ex_match_loop\<close>, with Go's
    order of evaluation in \<open>p.next[v] = &node{...}\<close>. Lemmas: every insertion panics on
    the nil map, so the initial state is the only reachable one, and every lookup panics on
    the nil \<open>nextNode\<close>. Since no reachable state has a live map, nothing more of the
    prototype's behaviour can be observed; what its code would do with live maps (it
    stores a parameter piece under \<open>":"\<close> but looks it up under its own text) is
    recorded as a finding, not as a theorem.
  \<^item> This theory: the property spanning \<open>insert\<close>, \<open>matchChild\<close> and the router's
    registration phase: \<open>wild_last\<close>, in every reachable trie a wild child is the last
    child of its parent (\<open>built_wild_last\<close>), the general form of the capture of literal
    segments by a parameter that spec 4.1 warns about.

  \<^emph>\<open>Recursion and fuel.\<close> Every loop of the source is bounded: \<open>insert\<close> and
  \<open>search\<close> recurse with \<open>height + 1\<close> towards \<open>len(parts)\<close> (measure
  \<open>length parts - height\<close>), the loops over children and over the pieces of a path walk
  finite lists (structural recursion, measure \<open>size\<close>). No fuel is needed and every
  function is total, by the termination proofs of its definition.

  \<^emph>\<open>Panics.\<close> No source file recovers from a panic, so a panicking operation returns
  \<open>Inl e\<close> and its partial effects (a child already appended, a node already allocated)
  are dropped with the process.

  \<^emph>\<open>Not modelled.\<close> The router itself (per-method roots, parameter extraction from the
  matched pattern, dispatch) is not in \<open>src/\<close>; only the parts of it the spec describes
  and the trie's contract needs are modelled, in \<open>Route_Trie\<close>. Concurrency is not
  modelled: \<open>spec.md\<close> section 5 fixes all insertions before any search and the code
  has no synchronisation, so a registration phase followed by reads is the whole
  behaviour.
\<close>

section \<open>Wild children and the capture of literal segments\<close>

text \<open>
  \<open>wild_last n\<close>: in every node of \<open>n\<close>, a wild child (parameter or catch-all) can only
  be the last of its slice, so each node has at most one wild child and none before a
  literal one.
\<close>

fun wild_last :: "node \<Rightarrow> bool" where
  "wild_last (Node pa p cs w) \<longleftrightarrow> (\<forall>c \<in> set (butlast cs). \<not> isWild c) \<and> (\<forall>c \<in> set cs. wild_last c)"

lemma wild_last_sel:
  "wild_last n \<longleftrightarrow> (\<forall>c \<in> set (butlast (children n)). \<not> isWild c) \<and> (\<forall>c \<in> set (children n). wild_last c)"
  by (cases n) simp

lemma butlast_update_none:
  assumes none: "\<forall>x \<in> set (butlast xs). \<not> P x" and i: "i < length xs" and c: "P c = P (xs ! i)"
  shows "\<forall>x \<in> set (butlast (xs[i := c])). \<not> P x"
proof (cases "i = length xs - 1")
  case True
  with none show ?thesis by (simp add: butlast_list_update)
next
  case False
  with i have i': "i < length (butlast xs)" by simp
  have "xs ! i \<in> set (butlast xs)" using nth_mem [OF i'] by (simp only: nth_butlast [OF i'])
  with none have "\<not> P (xs ! i)" by blast
  with c have nc: "\<not> P c" by simp
  from False have "set (butlast (xs[i := c])) \<subseteq> insert c (set (butlast xs))"
    by (simp add: butlast_list_update set_update_subset_insert)
  with none nc show ?thesis by blast
qed

lemma insert_node_wild_last:
  "insert_node n pat parts h = Inr n' \<Longrightarrow> wild_last n \<Longrightarrow> wild_last n'"
proof (induction n pat parts h arbitrary: n' rule: insert_node.induct)
  case (1 n pat parts h)
  from "1.prems"(2) have bl: "\<forall>c \<in> set (butlast (children n)). \<not> isWild c"
    and kids: "\<forall>c \<in> set (children n). wild_last c" unfolding wild_last_sel [of n] by blast+
  from "1.prems"(1) show ?case
  proof (cases rule: insert_InrE)
    case at_end
    with bl kids show ?thesis by simp
  next
    case (found i c)
    from matchChild_idx_SomeD [OF found(2)] have i: "i < length (children n)" by simp
    then have "wild_last (children n ! i)" using kids by simp
    with "1.IH"(2) [OF _ _ refl found(2,3)] found(1) have wc: "wild_last c" by simp
    have same: "isWild c = isWild (children n ! i)" using insert_keeps_part [OF found(3)] by simp
    have "\<forall>x \<in> set (butlast ((children n)[i := c])). \<not> isWild x"
      by (rule butlast_update_none [OF bl i same])
    moreover have "\<forall>x \<in> set ((children n)[i := c]). wild_last x"
      using kids wc by (auto dest: set_update_subset_insert [THEN subsetD])
    ultimately show ?thesis using found(4) by simp
  next
    case (new child c)
    from new(3) have "wild_last child" by (simp add: new_node_Inr)
    with "1.IH"(1) [OF _ _ refl new(2,3,4)] new(1) have wc: "wild_last c" by simp
    from new(2) have "\<forall>x \<in> set (children n). \<not> isWild x"
      by (auto simp: matchChild_idx_None child_matches_def)
    with kids wc new(5) show ?thesis by simp
  qed
qed

text \<open>
  C24. Spec 4.1 warns that a dynamic child captures later literal segments; this is the
  general form. In every trie a sequence of registrations builds, a wild child is the last
  child of its parent: \<open>matchChild\<close> (line 14) returns a wild child for every segment,
  so once a parameter or catch-all child exists at a level, \<open>insert\<close> never appends a
  sibling after it, and a literal registered later at that level is stored in the wild
  child instead of a node of its own.
\<close>

theorem built_wild_last: "built t \<Longrightarrow> wild_last t"
proof (induction rule: built.induct)
  case root
  show ?case by (simp add: new_root_def)
next
  case (add t pat t')
  then show ?case by (auto simp: trie_insert_def intro: insert_node_wild_last)
qed

theorem built_wild_last_witness:
  "built (Node [] [] [Node [] ''p'' [Node ''new'' '':id'' [] True] False] False) \<and> wild_last (Node [] [] [Node [] ''p'' [Node ''new'' '':id'' [] True] False] False)"
proof -
  have e1: "trie_insert new_root ''/p/:id'' = Inr (Node [] [] [Node [] ''p'' [Node '':id'' '':id'' [] True] False] False)"
    by (simp add: trie_insert_def new_root_def parse_parts_def insert_node.simps go_eval)
  have e2: "trie_insert (Node [] [] [Node [] ''p'' [Node '':id'' '':id'' [] True] False] False) ''/p/new'' = Inr (Node [] [] [Node [] ''p'' [Node ''new'' '':id'' [] True] False] False)"
    by (simp add: trie_insert_def parse_parts_def insert_node.simps go_eval)
  have b: "built (Node [] [] [Node [] ''p'' [Node ''new'' '':id'' [] True] False] False)" by (rule built.add [OF built.add [OF built.root e1] e2])
  from b built_wild_last [OF b] show ?thesis by blast
qed

end
